theory Spec2Isabelle
  imports Main "HOL-Library.Sublist" "HOL-Library.Stream"
begin

section \<open>Data model (types.ts)\<close>

datatype Color = Red | Black

datatype PieceType = Man | King

record Piece =
  color :: Color
  type :: PieceType

text \<open>Coordinates are JavaScript numbers; the engine only ever computes integers.\<close>

record Position =
  row :: int
  col :: int

text \<open>The field \<open>from\<close> of the source is called \<open>from_pos\<close> here (\<open>from\<close> is an Isar keyword).\<close>

record CheckersMove =
  from_pos :: Position
  path :: "Position list"
  captures :: "Position list"

text \<open>
  A board is the array of rows of cells of the source, a cell being \<open>null\<close> (\<open>None\<close>)
  or a piece. The type \<open>(Piece | null)[][]\<close> is used at the shape 8 by 8 only
  (\<open>reset\<close> builds it so); \<open>wf_board\<close> states that shape.
\<close>

type_synonym Board = "Piece option list list"

definition wf_board :: "Board \<Rightarrow> bool" where
  "wf_board board = (length board = 8 \<and> list_all (\<lambda>r. length r = 8) board)"

definition inBounds :: "Position \<Rightarrow> bool" where
  "inBounds pos = (\<not> (row pos < 0 \<or> row pos \<ge> 8 \<or> col pos < 0 \<or> col pos \<ge> 8))"

text \<open>
  \<open>cellAt board pos\<close> is the read \<open>board[pos.row][pos.col]\<close>. The source evaluates it at
  coordinates 0..7 of an 8 by 8 board, where the stored lists have the element; outside
  the stored lists the model answers \<open>None\<close>.
\<close>

definition cellAt :: "Board \<Rightarrow> Position \<Rightarrow> Piece option" where
  "cellAt board pos =
     (if 0 \<le> row pos \<and> nat (row pos) < length board \<and>
         0 \<le> col pos \<and> nat (col pos) < length (board ! nat (row pos))
      then board ! nat (row pos) ! nat (col pos) else None)"

text \<open>\<open>setCell board pos v\<close> is the write \<open>board[pos.row][pos.col] = v\<close> inside the grid.\<close>

definition setCell :: "Board \<Rightarrow> Position \<Rightarrow> Piece option \<Rightarrow> Board" where
  "setCell board pos v =
     (if 0 \<le> row pos \<and> nat (row pos) < length board \<and>
         0 \<le> col pos \<and> nat (col pos) < length (board ! nat (row pos))
      then board[nat (row pos) := (board ! nat (row pos))[nat (col pos) := v]]
      else board)"

section \<open>Checkers.ts\<close>

subsection \<open>reset\<close>

definition initialBoard :: Board where
  "initialBoard =
     map (\<lambda>r. map (\<lambda>c.
            if (r + c) mod 2 = 1 then
              (if r < 3 then Some \<lparr>color = Black, type = Man\<rparr>
               else if r > 4 then Some \<lparr>color = Red, type = Man\<rparr>
               else None)
            else None) [0 ..< 8]) [0 ..< (8::nat)]"

subsection \<open>getPiece\<close>

text \<open>A method of the game object; the board it reads is an argument here.\<close>

definition getPiece :: "Board \<Rightarrow> Position \<Rightarrow> Piece option" where
  "getPiece board pos =
     (if row pos < 0 \<or> row pos \<ge> 8 \<or> col pos < 0 \<or> col pos \<ge> 8 then None
      else cellAt board pos)"

subsection \<open>getDirections\<close>

definition getDirections :: "Piece \<Rightarrow> (int \<times> int) list" where
  "getDirections piece =
     (if type piece = King then [(-1, -1), (-1, 1), (1, -1), (1, 1)]
      else if color piece = Red then [(-1, -1), (-1, 1)]
      else [(1, -1), (1, 1)])"

subsection \<open>cloneBoard\<close>

text \<open>
  Pieces are values here, so the copy \<open>{ ...cell }\<close> of a piece is the piece. What
  \<open>cloneBoard\<close> allocates is the subject of the store model further down.
\<close>

definition cloneBoard :: "Board \<Rightarrow> Board" where
  "cloneBoard board =
     map (\<lambda>row. map (\<lambda>cell. case cell of Some piece \<Rightarrow> Some piece | None \<Rightarrow> None) row) board"

subsection \<open>getSimpleMovesForPiece\<close>

text \<open>The \<open>for\<close> loop over the directions; \<open>moves.push\<close> keeps their order.\<close>

fun simpleLoop :: "Board \<Rightarrow> Position \<Rightarrow> (int \<times> int) list \<Rightarrow> CheckersMove list" where
  "simpleLoop board pos [] = []"
| "simpleLoop board pos (d # ds) =
     (let target = \<lparr>row = row pos + fst d, col = col pos + snd d\<rparr> in
      if row target < 0 \<or> row target \<ge> 8 \<or> col target < 0 \<or> col target \<ge> 8
      then simpleLoop board pos ds
      else if cellAt board target = None
      then \<lparr>from_pos = pos, path = [target], captures = []\<rparr> # simpleLoop board pos ds
      else simpleLoop board pos ds)"

definition getSimpleMovesForPiece :: "Board \<Rightarrow> Position \<Rightarrow> Piece \<Rightarrow> CheckersMove list" where
  "getSimpleMovesForPiece board pos piece = simpleLoop board pos (getDirections piece)"

subsection \<open>getCapturesForPiece\<close>

text \<open>
  The simulation of one jump (lines 216 to 221): clone, remove the captured piece, put
  the moving piece, as it was passed in, on the landing square, clear the origin.
\<close>

definition simulateJump :: "Board \<Rightarrow> Position \<Rightarrow> Piece \<Rightarrow> Position \<Rightarrow> Position \<Rightarrow> Board" where
  "simulateJump board pos piece enemyPos landingPos =
     (let newBoard = cloneBoard board;
          newBoard = setCell newBoard enemyPos None;
          newBoard = setCell newBoard landingPos (Some piece);
          newBoard = setCell newBoard pos None
      in newBoard)"

text \<open>
  \<open>getCapturesForPiece\<close> and its loop over the directions. The loop returns the pair
  of the local variables \<open>moves\<close> and \<open>foundCapture\<close>. The optional argument
  \<open>currentMove\<close> is an \<open>option\<close>.
\<close>

function getCapturesForPiece ::
    "Board \<Rightarrow> Position \<Rightarrow> Piece \<Rightarrow> CheckersMove option \<Rightarrow> CheckersMove list"
  and capturesLoop ::
    "Board \<Rightarrow> Position \<Rightarrow> Piece \<Rightarrow> CheckersMove \<Rightarrow> (int \<times> int) list \<Rightarrow>
     CheckersMove list \<times> bool"
where
  "getCapturesForPiece board pos piece currentMove =
     (let moveSoFar = (case currentMove of
                         Some m \<Rightarrow> m
                       | None \<Rightarrow> \<lparr>from_pos = pos, path = [], captures = []\<rparr>);
          (moves, foundCapture) = capturesLoop board pos piece moveSoFar (getDirections piece)
      in if \<not> foundCapture \<and> length (captures moveSoFar) > 0 then [moveSoFar] else moves)"
| "capturesLoop board pos piece moveSoFar [] = ([], False)"
| "capturesLoop board pos piece moveSoFar (d # ds) =
     (let enemyPos = \<lparr>row = row pos + fst d, col = col pos + snd d\<rparr>;
          landingPos = \<lparr>row = row pos + 2 * fst d, col = col pos + 2 * snd d\<rparr>
      in if row landingPos < 0 \<or> row landingPos \<ge> 8 \<or> col landingPos < 0 \<or> col landingPos \<ge> 8
         then capturesLoop board pos piece moveSoFar ds
         else
           (case (if row enemyPos \<ge> 0 \<and> row enemyPos < 8 \<and> col enemyPos \<ge> 0 \<and> col enemyPos < 8
                  then cellAt board enemyPos else None) of
              None \<Rightarrow> capturesLoop board pos piece moveSoFar ds
            | Some enemyPiece \<Rightarrow>
                if color enemyPiece = color piece then capturesLoop board pos piece moveSoFar ds
                else if cellAt board landingPos \<noteq> None then capturesLoop board pos piece moveSoFar ds
                else
                  (let newBoard = simulateJump board pos piece enemyPos landingPos;
                       newMove = \<lparr>from_pos = from_pos moveSoFar,
                                  path = path moveSoFar @ [landingPos],
                                  captures = captures moveSoFar @ [enemyPos]\<rparr>;
                       furtherCaptures = getCapturesForPiece newBoard landingPos piece (Some newMove);
                       (moves, foundCapture) = capturesLoop board pos piece moveSoFar ds
                   in ((if length furtherCaptures > 0 then furtherCaptures else [newMove]) @ moves,
                       True))))"
  by pat_completeness auto

text \<open>
  Every jump removes a piece of the other colour: their number is the measure of the
  termination proof, which opens the properties below.
\<close>

definition isEnemy :: "Piece \<Rightarrow> Piece option \<Rightarrow> bool" where
  "isEnemy piece c = (case c of None \<Rightarrow> False | Some e \<Rightarrow> color e \<noteq> color piece)"

definition enemyCount :: "Piece \<Rightarrow> Board \<Rightarrow> nat" where
  "enemyCount piece board = sum_list (map (\<lambda>r. length (filter (isEnemy piece) r)) board)"


subsection \<open>evaluateBoard\<close>

text \<open>The two nested \<open>for\<close> loops visit the squares row by row.\<close>

definition squares :: "Position list" where
  "squares = concat (map (\<lambda>r. map (\<lambda>c. \<lparr>row = r, col = c\<rparr>) [0 .. 7]) [0 .. 7])"

fun evaluateLoop :: "Board \<Rightarrow> Color \<Rightarrow> Position list \<Rightarrow> int \<Rightarrow> int" where
  "evaluateLoop board perspective [] val = val"
| "evaluateLoop board perspective (pos # rest) val =
     (case cellAt board pos of
        None \<Rightarrow> evaluateLoop board perspective rest val
      | Some piece \<Rightarrow>
          (let pieceVal = (if type piece = Man then 10 else 50)
           in if color piece = perspective
              then evaluateLoop board perspective rest (val + pieceVal)
              else evaluateLoop board perspective rest (val - pieceVal)))"

definition evaluateBoard :: "Board \<Rightarrow> Color \<Rightarrow> int" where
  "evaluateBoard board perspective = evaluateLoop board perspective squares 0"

text \<open>
  The score as the specification words it: each piece counts its value (10 for a man,
  50 for a king), positively for the perspective's colour and negatively otherwise.
\<close>

definition pieceScore :: "Color \<Rightarrow> Piece option \<Rightarrow> int" where
  "pieceScore perspective cell =
     (case cell of None \<Rightarrow> 0
      | Some piece \<Rightarrow> (if color piece = perspective then 1 else -1) *
                      (if type piece = Man then 10 else 50))"


subsection \<open>getAllowedMovesForBoard\<close>

text \<open>
  The scan of the 64 squares, row by row, with the two accumulators \<open>allCaptures\<close>
  and \<open>allSimple\<close>.
\<close>

fun scanSquares ::
  "Board \<Rightarrow> Color \<Rightarrow> Position list \<Rightarrow> CheckersMove list \<times> CheckersMove list \<Rightarrow>
   CheckersMove list \<times> CheckersMove list" where
  "scanSquares board turn [] (allCaptures, allSimple) = (allCaptures, allSimple)"
| "scanSquares board turn (pos # rest) (allCaptures, allSimple) =
     (case cellAt board pos of
        None \<Rightarrow> scanSquares board turn rest (allCaptures, allSimple)
      | Some piece \<Rightarrow>
          if color piece = turn then
            (let captures = getCapturesForPiece board pos piece None in
             if length captures > 0
             then scanSquares board turn rest (allCaptures @ captures, allSimple)
             else (let simple = getSimpleMovesForPiece board pos piece
                   in scanSquares board turn rest (allCaptures, allSimple @ simple)))
          else scanSquares board turn rest (allCaptures, allSimple))"

definition getAllowedMovesForBoard :: "Board \<Rightarrow> Color \<Rightarrow> CheckersMove list" where
  "getAllowedMovesForBoard board turn =
     (let (allCaptures, allSimple) = scanSquares board turn squares ([], [])
      in if length allCaptures > 0 then allCaptures else allSimple)"

subsection \<open>_promoteIfNeeded\<close>

text \<open>The private method \<open>_promoteIfNeeded\<close> (an Isabelle name starts with a letter).\<close>

definition promoteIfNeeded :: "Piece \<Rightarrow> int \<Rightarrow> Piece" where
  "promoteIfNeeded piece r =
     (if type piece = King then piece
      else if color piece = Red \<and> r = 0 then piece\<lparr>type := King\<rparr>
      else if color piece = Black \<and> r = 7 then piece\<lparr>type := King\<rparr>
      else piece)"

subsection \<open>updateBoard\<close>

text \<open>
  \<open>updateBoard\<close> does not validate the move. Where the move names a row outside the
  board, or has an empty path, the source reads a property of \<open>undefined\<close> and throws
  \<open>TypeError\<close>. Where it names a column outside the board in a row that exists, the
  source writes outside the eight cells of that row (JavaScript grows the array or adds a
  property), and what it returns is no longer a board: the model stops there with
  \<open>OutOfGrid\<close>. A \<open>from\<close> square whose column is outside the board reads
  \<open>undefined\<close>, which is falsy as \<open>null\<close> is.
\<close>

datatype error = TypeError | OutOfGrid

fun clearCaptures :: "Board \<Rightarrow> Position list \<Rightarrow> error + Board" where
  "clearCaptures newBoard [] = Inr newBoard"
| "clearCaptures newBoard (cap # rest) =
     (if row cap < 0 \<or> row cap \<ge> 8 then Inl TypeError
      else if col cap < 0 \<or> col cap \<ge> 8 then Inl OutOfGrid
      else clearCaptures (setCell newBoard cap None) rest)"

definition updateBoard :: "Board \<Rightarrow> CheckersMove \<Rightarrow> error + Board" where
  "updateBoard board move =
     (let newBoard = cloneBoard board in
      if row (from_pos move) < 0 \<or> row (from_pos move) \<ge> 8 then Inl TypeError
      else
        (case cellAt newBoard (from_pos move) of
           None \<Rightarrow> Inr newBoard
         | Some piece \<Rightarrow>
             (let newBoard = setCell newBoard (from_pos move) None in
              case clearCaptures newBoard (captures move) of
                Inl e \<Rightarrow> Inl e
              | Inr newBoard \<Rightarrow>
                  if path move = [] then Inl TypeError
                  else
                    (let finalPos = last (path move);
                         newPiece = piece;
                         newPiece =
                           (if type newPiece = Man then
                              (if color newPiece = Red \<and> row finalPos = 0
                               then newPiece\<lparr>type := King\<rparr>
                               else if color newPiece = Black \<and> row finalPos = 7
                               then newPiece\<lparr>type := King\<rparr>
                               else newPiece)
                            else newPiece)
                     in if row finalPos < 0 \<or> row finalPos \<ge> 8 then Inl TypeError
                        else if col finalPos < 0 \<or> col finalPos \<ge> 8 then Inl OutOfGrid
                        else Inr (setCell newBoard finalPos (Some newPiece))))))"

subsection \<open>shuffle\<close>

text \<open>
  \<open>Math.random\<close> is a source of numbers the program does not control: it is a stream
  of naturals, and \<open>Math.floor(Math.random() * n)\<close> takes the next one modulo \<open>n\<close>,
  so that every draw the source can make (any j from 0 to n - 1) is the draw of some
  stream. The stream is threaded through the search.
\<close>

type_synonym rng = "nat stream"

definition randomBelow :: "rng \<Rightarrow> nat \<Rightarrow> nat \<times> rng" where
  "randomBelow g n = (shd g mod n, stl g)"

fun shuffleLoop :: "nat \<Rightarrow> 'a list \<Rightarrow> rng \<Rightarrow> 'a list \<times> rng" where
  "shuffleLoop 0 array g = (array, g)"
| "shuffleLoop (Suc k) array g =
     (let i = Suc k;
          (j, g) = randomBelow g (i + 1);
          array = array[i := array ! j, j := array ! i]
      in shuffleLoop (i - 1) array g)"

definition shuffle :: "'a list \<Rightarrow> rng \<Rightarrow> 'a list \<times> rng" where
  "shuffle array g = shuffleLoop (length array - 1) array g"

subsection \<open>minimax and bestMove\<close>

text \<open>
  Scores are integers or one of the two infinities the loops start from.
  \<open>num_less a b\<close> is \<open>a < b\<close> on them. The depth is a number of plies, a natural
  number. The two \<open>for\<close> loops of the source are \<open>maxLoop\<close> and \<open>minLoop\<close>;
  they carry \<open>bestVal\<close> and \<open>bestMove\<close>, and receive \<open>depth - 1\<close>, the depth of
  the recursive calls, as \<open>nextDepth\<close>.
\<close>

datatype jsnum = NegInfinity | Num int | Infinity

fun num_less :: "jsnum \<Rightarrow> jsnum \<Rightarrow> bool" where
  "num_less NegInfinity NegInfinity = False"
| "num_less NegInfinity _ = True"
| "num_less (Num a) (Num b) = (a < b)"
| "num_less (Num a) Infinity = True"
| "num_less (Num a) NegInfinity = False"
| "num_less Infinity _ = False"

record SearchResult =
  score :: jsnum
  move :: "CheckersMove option"

function minimax ::
    "Board \<Rightarrow> nat \<Rightarrow> bool \<Rightarrow> Color \<Rightarrow> Color \<Rightarrow> rng \<Rightarrow> error + (SearchResult \<times> rng)"
  and maxLoop ::
    "Board \<Rightarrow> nat \<Rightarrow> Color \<Rightarrow> Color \<Rightarrow> CheckersMove list \<Rightarrow> jsnum \<Rightarrow> CheckersMove option \<Rightarrow> rng \<Rightarrow>
     error + (SearchResult \<times> rng)"
  and minLoop ::
    "Board \<Rightarrow> nat \<Rightarrow> Color \<Rightarrow> Color \<Rightarrow> CheckersMove list \<Rightarrow> jsnum \<Rightarrow> CheckersMove option \<Rightarrow> rng \<Rightarrow>
     error + (SearchResult \<times> rng)"
where
  "minimax board depth isMax turn perspective g =
     (let moves = getAllowedMovesForBoard board turn in
      if depth = 0 \<or> length moves = 0
      then Inr (\<lparr>score = Num (evaluateBoard board perspective), move = None\<rparr>, g)
      else
        (let (shuffledMoves, g) = shuffle moves g in
         if isMax
         then maxLoop board (depth - 1) turn perspective shuffledMoves NegInfinity None g
         else minLoop board (depth - 1) turn perspective shuffledMoves Infinity None g))"
| "maxLoop board nextDepth turn perspective [] bestVal bestMove g =
     Inr (\<lparr>score = bestVal, move = bestMove\<rparr>, g)"
| "maxLoop board nextDepth turn perspective (mv # rest) bestVal bestMove g =
     (case updateBoard board mv of
        Inl e \<Rightarrow> Inl e
      | Inr newBoard \<Rightarrow>
          (let nextTurn = (if turn = Red then Black else Red) in
           case minimax newBoard nextDepth False nextTurn perspective g of
             Inl e \<Rightarrow> Inl e
           | Inr (result, g) \<Rightarrow>
               if num_less bestVal (score result)
               then maxLoop board nextDepth turn perspective rest (score result) (Some mv) g
               else maxLoop board nextDepth turn perspective rest bestVal bestMove g))"
| "minLoop board nextDepth turn perspective [] bestVal bestMove g =
     Inr (\<lparr>score = bestVal, move = bestMove\<rparr>, g)"
| "minLoop board nextDepth turn perspective (mv # rest) bestVal bestMove g =
     (case updateBoard board mv of
        Inl e \<Rightarrow> Inl e
      | Inr newBoard \<Rightarrow>
          (let nextTurn = (if turn = Red then Black else Red) in
           case minimax newBoard nextDepth True nextTurn perspective g of
             Inl e \<Rightarrow> Inl e
           | Inr (result, g) \<Rightarrow>
               if num_less (score result) bestVal
               then minLoop board nextDepth turn perspective rest (score result) (Some mv) g
               else minLoop board nextDepth turn perspective rest bestVal bestMove g))"
  by pat_completeness auto
termination
proof (relation "inv_image (less_than <*lex*> less_than)
      (\<lambda>x. case x of
         Inl (b, depth, isMax, t, p, g) \<Rightarrow> (2 * depth + 1, 0)
       | Inr (Inl (b, nd, t, p, moves, bv, bm, g)) \<Rightarrow> (2 * nd + 2, length moves)
       | Inr (Inr (b, nd, t, p, moves, bv, bm, g)) \<Rightarrow> (2 * nd + 2, length moves))",
    goal_cases)
  case 1
  show ?case by (intro wf_inv_image wf_lex_prod wf_less_than)
qed auto

declare minimax.simps [simp del]

text \<open>
  \<open>bestMove\<close> is a method of the game object: the board and the turn it reads from
  the object are arguments here.
\<close>

definition bestMove :: "Board \<Rightarrow> Color \<Rightarrow> nat \<Rightarrow> rng \<Rightarrow> error + CheckersMove option" where
  "bestMove board turn depth g =
     (case minimax (cloneBoard board) depth True turn turn g of
        Inl e \<Rightarrow> Inl e
      | Inr (result, g) \<Rightarrow> Inr (move result))"

section \<open>Vocabulary of the properties\<close>

subsection \<open>Jump chains\<close>

text \<open>
  A direction \<open>d\<close> gives the
  square of the jumped piece and the landing square; \<open>canJump\<close> is the test of the
  loop body of \<open>getCapturesForPiece\<close> (lines 194 to 212). A chain is a list of hops,
  each the pair of a landing square and of the captured square; it is valid when every
  hop is a jump the piece, as passed in, can make on the board simulated so far, and
  maximal when no jump is left at its end.
\<close>

definition jumpEnemy :: "Position \<Rightarrow> int \<times> int \<Rightarrow> Position" where
  "jumpEnemy pos d = \<lparr>row = row pos + fst d, col = col pos + snd d\<rparr>"

definition jumpLanding :: "Position \<Rightarrow> int \<times> int \<Rightarrow> Position" where
  "jumpLanding pos d = \<lparr>row = row pos + 2 * fst d, col = col pos + 2 * snd d\<rparr>"

definition canJump :: "Board \<Rightarrow> Position \<Rightarrow> Piece \<Rightarrow> int \<times> int \<Rightarrow> bool" where
  "canJump board pos piece d =
     (inBounds (jumpLanding pos d) \<and> inBounds (jumpEnemy pos d) \<and>
      (case cellAt board (jumpEnemy pos d) of
         None \<Rightarrow> False
       | Some enemyPiece \<Rightarrow> color enemyPiece \<noteq> color piece) \<and>
      cellAt board (jumpLanding pos d) = None)"

definition extendMove :: "CheckersMove \<Rightarrow> Position \<Rightarrow> Position \<Rightarrow> CheckersMove" where
  "extendMove m landingPos enemyPos =
     \<lparr>from_pos = from_pos m, path = path m @ [landingPos], captures = captures m @ [enemyPos]\<rparr>"

definition startMove :: "Position \<Rightarrow> CheckersMove option \<Rightarrow> CheckersMove" where
  "startMove pos currentMove =
     (case currentMove of Some m \<Rightarrow> m | None \<Rightarrow> \<lparr>from_pos = pos, path = [], captures = []\<rparr>)"

definition jumpMoves :: "Board \<Rightarrow> Position \<Rightarrow> Piece \<Rightarrow> CheckersMove \<Rightarrow> int \<times> int \<Rightarrow> CheckersMove list" where
  "jumpMoves board pos piece moveSoFar d =
     (if canJump board pos piece d
      then getCapturesForPiece
             (simulateJump board pos piece (jumpEnemy pos d) (jumpLanding pos d))
             (jumpLanding pos d) piece
             (Some (extendMove moveSoFar (jumpLanding pos d) (jumpEnemy pos d)))
      else [])"

type_synonym hop = "Position \<times> Position"

fun validChain :: "Board \<Rightarrow> Position \<Rightarrow> Piece \<Rightarrow> hop list \<Rightarrow> bool" where
  "validChain board pos piece [] = True"
| "validChain board pos piece ((landingPos, enemyPos) # rest) =
     ((\<exists>d\<in>set (getDirections piece).
         canJump board pos piece d \<and> landingPos = jumpLanding pos d \<and> enemyPos = jumpEnemy pos d) \<and>
      validChain (simulateJump board pos piece enemyPos landingPos) landingPos piece rest)"

fun simulateChain :: "Board \<Rightarrow> Position \<Rightarrow> Piece \<Rightarrow> hop list \<Rightarrow> Board" where
  "simulateChain board pos piece [] = board"
| "simulateChain board pos piece ((landingPos, enemyPos) # rest) =
     simulateChain (simulateJump board pos piece enemyPos landingPos) landingPos piece rest"

definition chainEnd :: "Position \<Rightarrow> hop list \<Rightarrow> Position" where
  "chainEnd pos hops = last (pos # map fst hops)"

definition canContinue :: "Board \<Rightarrow> Position \<Rightarrow> Piece \<Rightarrow> bool" where
  "canContinue board pos piece = (\<exists>d\<in>set (getDirections piece). canJump board pos piece d)"

definition maximalChain :: "Board \<Rightarrow> Position \<Rightarrow> Piece \<Rightarrow> hop list \<Rightarrow> bool" where
  "maximalChain board pos piece hops =
     (validChain board pos piece hops \<and>
      \<not> canContinue (simulateChain board pos piece hops) (chainEnd pos hops) piece)"

definition appendHops :: "CheckersMove \<Rightarrow> hop list \<Rightarrow> CheckersMove" where
  "appendHops m hops =
     \<lparr>from_pos = from_pos m, path = path m @ map fst hops, captures = captures m @ map snd hops\<rparr>"

definition chainMove :: "Position \<Rightarrow> hop list \<Rightarrow> CheckersMove" where
  "chainMove pos hops = \<lparr>from_pos = pos, path = map fst hops, captures = map snd hops\<rparr>"

subsection \<open>The contribution of a square to the scan\<close>

text \<open>
  What one square contributes to the scan: the capture moves and the simple moves of
  the piece on it, when it has the colour to move. A piece has a capture available when
  it can make some jump.
\<close>

definition capturesAt :: "Board \<Rightarrow> Color \<Rightarrow> Position \<Rightarrow> CheckersMove list" where
  "capturesAt board turn pos =
     (case cellAt board pos of
        None \<Rightarrow> []
      | Some piece \<Rightarrow> if color piece = turn then getCapturesForPiece board pos piece None else [])"

definition simpleAt :: "Board \<Rightarrow> Color \<Rightarrow> Position \<Rightarrow> CheckersMove list" where
  "simpleAt board turn pos =
     (case cellAt board pos of
        None \<Rightarrow> []
      | Some piece \<Rightarrow> if color piece = turn then getSimpleMovesForPiece board pos piece else [])"

definition hasCapture :: "Board \<Rightarrow> Color \<Rightarrow> Position \<Rightarrow> bool" where
  "hasCapture board turn pos =
     (case cellAt board pos of
        None \<Rightarrow> False
      | Some piece \<Rightarrow> color piece = turn \<and> canContinue board pos piece)"

definition isCaptureMove :: "CheckersMove \<Rightarrow> bool" where
  "isCaptureMove m = (captures m \<noteq> [] \<and> length (path m) = length (captures m))"

definition isSimpleMove :: "CheckersMove \<Rightarrow> bool" where
  "isSimpleMove m = (captures m = [] \<and> length (path m) = 1)"

subsection \<open>Example boards\<close>

text \<open>
  Boards to run the program on: two red men and two black men placed so that the red man
  on (4,1) can jump twice in sequence, and a red man that reaches row 0 by a jump next
  to a second black man.
\<close>

definition emptyBoard :: Board where
  "emptyBoard = replicate 8 (replicate 8 None)"

definition sq :: "int \<Rightarrow> int \<Rightarrow> Position" where
  "sq r c = \<lparr>row = r, col = c\<rparr>"

definition redMan :: Piece where "redMan = \<lparr>color = Red, type = Man\<rparr>"

definition blackMan :: Piece where "blackMan = \<lparr>color = Black, type = Man\<rparr>"

definition doubleJumpBoard :: Board where
  "doubleJumpBoard =
     setCell (setCell (setCell (setCell emptyBoard
       (sq 4 1) (Some redMan)) (sq 3 2) (Some blackMan)) (sq 1 4) (Some blackMan))
       (sq 6 5) (Some redMan)"

definition promotionBoard :: Board where
  "promotionBoard =
     setCell (setCell (setCell emptyBoard
       (sq 2 1) (Some redMan)) (sq 1 2) (Some blackMan)) (sq 1 4) (Some blackMan)"

definition doubleJump :: CheckersMove where
  "doubleJump = \<lparr>from_pos = sq 4 1, path = [sq 2 3, sq 0 5], captures = [sq 3 2, sq 1 4]\<rparr>"

subsection \<open>Prefixes, back ranks, moves inside the grid\<close>

text \<open>
  \<open>isStrictPrefixMove m1 m2\<close>: same origin, and the path and the captures of \<open>m1\<close>
  are proper prefixes of those of \<open>m2\<close>. \<open>backRank c\<close> is the row on which a man of
  colour \<open>c\<close> is promoted.
\<close>

definition isStrictPrefixMove :: "CheckersMove \<Rightarrow> CheckersMove \<Rightarrow> bool" where
  "isStrictPrefixMove m1 m2 =
     (from_pos m1 = from_pos m2 \<and> strict_prefix (path m1) (path m2) \<and>
      strict_prefix (captures m1) (captures m2))"

definition backRank :: "Color \<Rightarrow> int" where
  "backRank c = (if c = Red then 0 else 7)"

text \<open>
  A move inside the grid: its origin holds a piece, its path is not empty and ends on a
  square of the board, and its captures are squares of the board. \<open>updateBoard\<close>
  returns a board for such a move.
\<close>

definition gridMove :: "Board \<Rightarrow> CheckersMove \<Rightarrow> bool" where
  "gridMove board m =
     (cellAt board (from_pos m) \<noteq> None \<and> path m \<noteq> [] \<and> inBounds (last (path m)) \<and>
      list_all inBounds (captures m))"

text \<open>\<open>isNum v\<close>: the score \<open>v\<close> is a number, not one of the infinities.\<close>

definition isNum :: "jsnum \<Rightarrow> bool" where
  "isNum v = (case v of Num n \<Rightarrow> True | _ \<Rightarrow> False)"

section \<open>cloneBoard and updateBoard on a store\<close>

text \<open>
  The store: piece objects, row arrays and outer arrays live at addresses (their index in
  the store); a cell of a row array is \<open>null\<close> or the address of a piece object, an
  outer array is the list of the addresses of its rows, and a board is the address of an
  outer array. An allocation appends an object; a write replaces the object at an
  address.
\<close>

type_synonym addr = nat

record store =
  pieceObjs :: "Piece list"
  rowObjs :: "addr option list list"
  boardObjs :: "addr list list"

definition allocPiece :: "store \<Rightarrow> Piece \<Rightarrow> store \<times> addr" where
  "allocPiece s piece = (s\<lparr>pieceObjs := pieceObjs s @ [piece]\<rparr>, length (pieceObjs s))"

definition allocRow :: "store \<Rightarrow> addr option list \<Rightarrow> store \<times> addr" where
  "allocRow s cells = (s\<lparr>rowObjs := rowObjs s @ [cells]\<rparr>, length (rowObjs s))"

definition allocBoard :: "store \<Rightarrow> addr list \<Rightarrow> store \<times> addr" where
  "allocBoard s rows = (s\<lparr>boardObjs := boardObjs s @ [rows]\<rparr>, length (boardObjs s))"

text \<open>\<open>board[pos.row][pos.col]\<close> and \<open>board[pos.row][pos.col] = v\<close>, for a row of the board.\<close>

definition readCell :: "store \<Rightarrow> addr \<Rightarrow> Position \<Rightarrow> addr option" where
  "readCell s board pos =
     (if col pos < 0 \<or> col pos \<ge> 8 then None
      else rowObjs s ! (boardObjs s ! board ! nat (row pos)) ! nat (col pos))"

definition writeCell :: "store \<Rightarrow> addr \<Rightarrow> Position \<Rightarrow> addr option \<Rightarrow> store" where
  "writeCell s board pos v =
     (let r = boardObjs s ! board ! nat (row pos)
      in s\<lparr>rowObjs := (rowObjs s)[r := (rowObjs s ! r)[nat (col pos) := v]]\<rparr>)"

definition setType :: "store \<Rightarrow> addr \<Rightarrow> PieceType \<Rightarrow> store" where
  "setType s a t = s\<lparr>pieceObjs := (pieceObjs s)[a := (pieceObjs s ! a)\<lparr>type := t\<rparr>]\<rparr>"

text \<open>\<open>row.map((cell) => (cell ? { ...cell } : null))\<close>: a new piece object per piece.\<close>

fun cloneCells :: "store \<Rightarrow> addr option list \<Rightarrow> store \<times> addr option list" where
  "cloneCells s [] = (s, [])"
| "cloneCells s (cell # rest) =
     (case cell of
        None \<Rightarrow> (let (s, cells) = cloneCells s rest in (s, None # cells))
      | Some a \<Rightarrow>
          (let (s, a') = allocPiece s (pieceObjs s ! a);
               (s, cells) = cloneCells s rest
           in (s, Some a' # cells)))"

text \<open>\<open>board.map((row) => ...)\<close>: a new row array per row.\<close>

fun cloneRows :: "store \<Rightarrow> addr list \<Rightarrow> store \<times> addr list" where
  "cloneRows s [] = (s, [])"
| "cloneRows s (r # rest) =
     (let (s, cells) = cloneCells s (rowObjs s ! r);
          (s, r') = allocRow s cells;
          (s, rows) = cloneRows s rest
      in (s, r' # rows))"

definition cloneBoardS :: "store \<Rightarrow> addr \<Rightarrow> store \<times> addr" where
  "cloneBoardS s board =
     (let (s, rows) = cloneRows s (boardObjs s ! board) in allocBoard s rows)"

fun clearCapturesS :: "store \<Rightarrow> addr \<Rightarrow> Position list \<Rightarrow> store \<times> (error + unit)" where
  "clearCapturesS s newBoard [] = (s, Inr ())"
| "clearCapturesS s newBoard (cap # rest) =
     (if row cap < 0 \<or> row cap \<ge> 8 then (s, Inl TypeError)
      else if col cap < 0 \<or> col cap \<ge> 8 then (s, Inl OutOfGrid)
      else clearCapturesS (writeCell s newBoard cap None) newBoard rest)"

definition updateBoardS :: "store \<Rightarrow> addr \<Rightarrow> CheckersMove \<Rightarrow> store \<times> (error + addr)" where
  "updateBoardS s board mv =
     (let (s, newBoard) = cloneBoardS s board in
      if row (from_pos mv) < 0 \<or> row (from_pos mv) \<ge> 8 then (s, Inl TypeError)
      else
        (case readCell s newBoard (from_pos mv) of
           None \<Rightarrow> (s, Inr newBoard)
         | Some piece \<Rightarrow>
             (let s = writeCell s newBoard (from_pos mv) None in
              case clearCapturesS s newBoard (captures mv) of
                (s, Inl e) \<Rightarrow> (s, Inl e)
              | (s, Inr u) \<Rightarrow>
                  if path mv = [] then (s, Inl TypeError)
                  else
                    (let finalPos = last (path mv);
                         (s, newPiece) = allocPiece s (pieceObjs s ! piece);
                         s = (if type (pieceObjs s ! newPiece) = Man then
                                (if color (pieceObjs s ! newPiece) = Red \<and> row finalPos = 0
                                 then setType s newPiece King
                                 else if color (pieceObjs s ! newPiece) = Black \<and> row finalPos = 7
                                 then setType s newPiece King
                                 else s)
                              else s)
                     in if row finalPos < 0 \<or> row finalPos \<ge> 8 then (s, Inl TypeError)
                        else if col finalPos < 0 \<or> col finalPos \<ge> 8 then (s, Inl OutOfGrid)
                        else (writeCell s newBoard finalPos (Some newPiece), Inr newBoard)))))"

text \<open>The board a store holds at an address, as a value.\<close>

definition readRow :: "store \<Rightarrow> addr \<Rightarrow> Piece option list" where
  "readRow s r = map (\<lambda>cell. case cell of None \<Rightarrow> None | Some a \<Rightarrow> Some (pieceObjs s ! a)) (rowObjs s ! r)"

definition readBoard :: "store \<Rightarrow> addr \<Rightarrow> Board" where
  "readBoard s board = map (readRow s) (boardObjs s ! board)"

text \<open>
  A board of the store: an outer array of eight rows of eight cells, with no dangling
  address.
\<close>

definition validCell :: "store \<Rightarrow> addr option \<Rightarrow> bool" where
  "validCell s c = (case c of None \<Rightarrow> True | Some a \<Rightarrow> a < length (pieceObjs s))"

definition validRow :: "store \<Rightarrow> addr \<Rightarrow> bool" where
  "validRow s r =
     (r < length (rowObjs s) \<and> length (rowObjs s ! r) = 8 \<and>
      list_all (validCell s) (rowObjs s ! r))"

definition validBoard :: "store \<Rightarrow> addr \<Rightarrow> bool" where
  "validBoard s board =
     (board < length (boardObjs s) \<and> length (boardObjs s ! board) = 8 \<and>
      list_all (validRow s) (boardObjs s ! board))"

text \<open>
  \<open>unchanged s s'\<close>: every object of \<open>s\<close> is in \<open>s'\<close>, at its address, with its contents.
  \<open>freshBoard s s' board\<close>: the outer array, the rows and the pieces of \<open>board\<close> in \<open>s'\<close>
  are at addresses that \<open>s\<close> does not have.
\<close>

definition unchanged :: "store \<Rightarrow> store \<Rightarrow> bool" where
  "unchanged s s' =
     (prefix (pieceObjs s) (pieceObjs s') \<and> prefix (rowObjs s) (rowObjs s') \<and>
      prefix (boardObjs s) (boardObjs s'))"

definition freshCell :: "store \<Rightarrow> addr option \<Rightarrow> bool" where
  "freshCell s c = (case c of None \<Rightarrow> True | Some a \<Rightarrow> length (pieceObjs s) \<le> a)"

definition freshRow :: "store \<Rightarrow> store \<Rightarrow> addr \<Rightarrow> bool" where
  "freshRow s s' r = (length (rowObjs s) \<le> r \<and> list_all (freshCell s) (rowObjs s' ! r))"

definition freshBoard :: "store \<Rightarrow> store \<Rightarrow> addr \<Rightarrow> bool" where
  "freshBoard s s' board =
     (length (boardObjs s) \<le> board \<and> list_all (freshRow s s') (boardObjs s' ! board))"

text \<open>\<open>copiedCell s s' c c'\<close>: the cell \<open>c'\<close> is \<open>null\<close> when \<open>c\<close> is, and otherwise
  points to a new piece object of \<open>s'\<close> with the contents of the piece \<open>c\<close> points to.\<close>

definition copiedCell :: "store \<Rightarrow> store \<Rightarrow> addr option \<Rightarrow> addr option \<Rightarrow> bool" where
  "copiedCell s s' c c' =
     (case c of
        None \<Rightarrow> c' = None
      | Some a \<Rightarrow> (\<exists>a'. c' = Some a' \<and> length (pieceObjs s) \<le> a' \<and> a' < length (pieceObjs s') \<and>
                      pieceObjs s' ! a' = pieceObjs s ! a))"

text \<open>
  \<open>ownBoard s0 s board\<close>: in \<open>s\<close>, a store grown from \<open>s0\<close>, \<open>board\<close> is a board
  made of objects that \<open>s0\<close> does not have, with eight distinct rows. \<open>deref\<close> reads
  the piece a cell points to.
\<close>

definition ownBoard :: "store \<Rightarrow> store \<Rightarrow> addr \<Rightarrow> bool" where
  "ownBoard s0 s board =
     (unchanged s0 s \<and> validBoard s board \<and> distinct (boardObjs s ! board) \<and>
      freshBoard s0 s board)"

definition deref :: "store \<Rightarrow> addr option \<Rightarrow> Piece option" where
  "deref s c = (case c of None \<Rightarrow> None | Some a \<Rightarrow> Some (pieceObjs s ! a))"

text \<open>
  The storage of a board: its outer array, its row arrays and the piece objects its cells
  point to. Two boards share no storage when these are pairwise apart.
\<close>

definition rowsOf :: "store \<Rightarrow> addr \<Rightarrow> addr list" where
  "rowsOf s board = boardObjs s ! board"

definition piecesOf :: "store \<Rightarrow> addr \<Rightarrow> addr list" where
  "piecesOf s board =
     concat (map (\<lambda>r. concat (map (\<lambda>cell. case cell of None \<Rightarrow> [] | Some a \<Rightarrow> [a])
                                  (rowObjs s ! r)))
               (rowsOf s board))"

definition sharesNoStorage :: "store \<Rightarrow> addr \<Rightarrow> addr \<Rightarrow> bool" where
  "sharesNoStorage s b1 b2 =
     (b1 \<noteq> b2 \<and> set (rowsOf s b1) \<inter> set (rowsOf s b2) = {} \<and>
      set (piecesOf s b1) \<inter> set (piecesOf s b2) = {})"

text \<open>A store that holds \<open>promotionBoard\<close> at address 0.\<close>

definition exampleStore :: store where
  "exampleStore =
     \<lparr>pieceObjs = [redMan, blackMan, blackMan],
      rowObjs =
        [replicate 8 None,
         (replicate 8 None)[2 := Some 1, 4 := Some 2],
         (replicate 8 None)[1 := Some 0],
         replicate 8 None, replicate 8 None, replicate 8 None, replicate 8 None,
         replicate 8 None],
      boardObjs = [[0, 1, 2, 3, 4, 5, 6, 7]]\<rparr>"

section \<open>Properties\<close>

subsection \<open>Termination of the capture generator\<close>

lemma filter_update_le:
  "\<not> P v \<Longrightarrow> length (filter P (xs[j := v])) \<le> length (filter P xs)"
  by (induction xs arbitrary: j) (auto split: nat.splits)

lemma filter_update_less:
  "\<not> P v \<Longrightarrow> j < length xs \<Longrightarrow> P (xs ! j) \<Longrightarrow>
   length (filter P (xs[j := v])) < length (filter P xs)"
proof (induction xs arbitrary: j)
  case Nil
  then show ?case by simp
next
  case (Cons x xs)
  show ?case
  proof (cases j)
    case 0
    with Cons show ?thesis by simp
  next
    case (Suc k)
    with Cons.prems have "length (filter P (xs[k := v])) < length (filter P xs)"
      by (intro Cons.IH) simp_all
    with Suc show ?thesis by simp
  qed
qed

lemma sum_list_update_le:
  "f y \<le> f (xs ! i) \<Longrightarrow> i < length xs \<Longrightarrow>
   sum_list (map f (xs[i := y])) \<le> (sum_list (map f xs) :: nat)"
  by (induction xs arbitrary: i) (auto split: nat.splits)

lemma sum_list_update_less:
  "f y < f (xs ! i) \<Longrightarrow> i < length xs \<Longrightarrow>
   sum_list (map f (xs[i := y])) < (sum_list (map f xs) :: nat)"
  by (induction xs arbitrary: i) (auto split: nat.splits)

lemma enemyCount_setCell_le:
  "\<not> isEnemy piece v \<Longrightarrow> enemyCount piece (setCell board pos v) \<le> enemyCount piece board"
  by (simp add: enemyCount_def setCell_def sum_list_update_le filter_update_le)

lemma enemyCount_setCell_less:
  "isEnemy piece (cellAt board pos) \<Longrightarrow> \<not> isEnemy piece v \<Longrightarrow>
   enemyCount piece (setCell board pos v) < enemyCount piece board"
  by (auto simp: enemyCount_def setCell_def cellAt_def isEnemy_def
           intro!: sum_list_update_less filter_update_less split: if_splits)

lemma cloneBoard_id: "cloneBoard board = board"
  by (simp add: cloneBoard_def map_idI split: option.splits)

lemma enemyCount_simulateJump:
  assumes "cellAt board enemyPos = Some e" and "color e \<noteq> color piece"
  shows "enemyCount piece (simulateJump board pos piece enemyPos landingPos)
           < enemyCount piece board"
proof -
  let ?b1 = "setCell board enemyPos None"
  let ?b2 = "setCell ?b1 landingPos (Some piece)"
  have "enemyCount piece (setCell ?b2 pos None) \<le> enemyCount piece ?b2"
    by (rule enemyCount_setCell_le) (simp add: isEnemy_def)
  also have "\<dots> \<le> enemyCount piece ?b1"
    by (rule enemyCount_setCell_le) (simp add: isEnemy_def)
  also have "\<dots> < enemyCount piece board"
    using assms by (intro enemyCount_setCell_less) (simp_all add: isEnemy_def)
  finally show ?thesis
    by (simp add: simulateJump_def cloneBoard_id)
qed

termination getCapturesForPiece
proof (relation "inv_image (less_than <*lex*> less_than)
      (\<lambda>x. case x of Inl (b, pos, p, cm) \<Rightarrow> (enemyCount p b, 5)
                    | Inr (b, pos, p, m, ds) \<Rightarrow> (enemyCount p b, length ds))",
    goal_cases)
  case 1
  show ?case by (intro wf_inv_image wf_lex_prod wf_less_than)
next
  case (2 board pos piece currentMove x)
  show ?case by (simp add: getDirections_def)
next
  case (7 board pos piece moveSoFar d ds enemyPos landingPos e newBoard newMove)
  then show ?case
    by (auto simp: enemyCount_simulateJump split: if_splits)
qed simp_all

declare getCapturesForPiece.simps [simp del]

lemma wf_initialBoard: "wf_board initialBoard"
  by (simp add: wf_board_def initialBoard_def list_all_iff)

text \<open>
  C9: for every position outside the grid (row or column below 0 or at least 8),
  \<open>getPiece\<close> answers \<open>null\<close>, whatever the board holds.
\<close>

theorem getPiece_out_of_bounds:
  "row pos < 0 \<or> row pos \<ge> 8 \<or> col pos < 0 \<or> col pos \<ge> 8 \<Longrightarrow> getPiece board pos = None"
  by (simp add: getPiece_def)

theorem getPiece_out_of_bounds_witness:
  "row \<lparr>row = -1, col = 3\<rparr> < 0 \<and> getPiece initialBoard \<lparr>row = -1, col = 3\<rparr> = None"
  using getPiece_out_of_bounds [of "\<lparr>row = -1, col = 3\<rparr>" initialBoard] by simp

subsection \<open>Evaluation\<close>

lemma evaluateLoop_sum:
  "evaluateLoop b p ps v = v + (\<Sum>pos\<leftarrow>ps. pieceScore p (cellAt b pos))"
  by (induction ps arbitrary: v) (auto split: option.splits simp: Let_def pieceScore_def)

lemma pieceScore_neg: "pieceScore Red c = - pieceScore Black c"
proof (cases c)
  case None
  then show ?thesis by (simp add: pieceScore_def)
next
  case (Some piece)
  then show ?thesis by (cases "color piece") (simp_all add: pieceScore_def)
qed

lemma sum_list_neg: "(\<Sum>x\<leftarrow>xs. - f x) = - (\<Sum>x\<leftarrow>xs. (f x :: int))"
  by (induction xs) auto

text \<open>
  C5: the evaluation from red's perspective is the negation of the evaluation from
  black's, and the score is the sum over the 64 squares of the signed piece values
  (10 for a man, 50 for a king).
\<close>

theorem evaluateBoard_symmetric:
  "evaluateBoard b Red = - evaluateBoard b Black \<and>
   evaluateBoard b t = (\<Sum>pos\<leftarrow>squares. pieceScore t (cellAt b pos))"
  by (simp add: evaluateBoard_def evaluateLoop_sum pieceScore_neg sum_list_neg)

subsection \<open>The capture generator returns the maximal chains\<close>

lemma capturesLoop_Cons:
  "capturesLoop b pos p m (d # ds) =
     (if canJump b pos p d
      then (let further = jumpMoves b pos p m d
            in ((if length further > 0 then further
                 else [extendMove m (jumpLanding pos d) (jumpEnemy pos d)])
                @ fst (capturesLoop b pos p m ds), True))
      else capturesLoop b pos p m ds)"
  by (simp add: Let_def canJump_def jumpEnemy_def jumpLanding_def inBounds_def jumpMoves_def
        extendMove_def split: option.splits prod.splits)

lemma capturesLoop_found:
  "snd (capturesLoop b pos p m ds) = (\<exists>d\<in>set ds. canJump b pos p d)"
  by (induction ds) (simp_all add: capturesLoop_Cons Let_def del: capturesLoop.simps(2))

lemma capturesLoop_nonempty:
  "snd (capturesLoop b pos p m ds) \<Longrightarrow> fst (capturesLoop b pos p m ds) \<noteq> []"
  by (induction ds)
     (auto simp: capturesLoop_Cons Let_def simp del: capturesLoop.simps(2) split: if_splits)

lemma getCaptures_Some_nonempty:
  "captures m \<noteq> [] \<Longrightarrow> getCapturesForPiece b pos p (Some m) \<noteq> []"
  using capturesLoop_nonempty [of b pos p m "getDirections p"]
  by (auto simp: getCapturesForPiece.simps Let_def split: prod.splits)

lemma jumpMoves_nonempty: "canJump b pos p d \<Longrightarrow> jumpMoves b pos p m d \<noteq> []"
  by (simp add: jumpMoves_def getCaptures_Some_nonempty extendMove_def)

lemma capturesLoop_moves:
  "fst (capturesLoop b pos p m ds) = concat (map (jumpMoves b pos p m) ds)"
proof (induction ds)
  case Nil
  show ?case by simp
next
  case (Cons d ds)
  show ?case
  proof (cases "canJump b pos p d")
    case True
    with Cons jumpMoves_nonempty [OF True, of m] show ?thesis
      by (simp add: capturesLoop_Cons Let_def del: capturesLoop.simps(2))
  next
    case False
    with Cons show ?thesis
      by (simp add: capturesLoop_Cons jumpMoves_def del: capturesLoop.simps(2))
  qed
qed

lemma getCaptures_unfold:
  "getCapturesForPiece b pos p cm =
     (if \<exists>d\<in>set (getDirections p). canJump b pos p d
      then concat (map (jumpMoves b pos p (startMove pos cm)) (getDirections p))
      else if captures (startMove pos cm) \<noteq> [] then [startMove pos cm] else [])"
proof -
  let ?ms = "startMove pos cm"
  let ?r = "capturesLoop b pos p ?ms (getDirections p)"
  have eq: "getCapturesForPiece b pos p cm =
      (if \<not> snd ?r \<and> length (captures ?ms) > 0 then [?ms] else fst ?r)"
    by (simp add: getCapturesForPiece.simps startMove_def Let_def split: prod.splits)
  have "\<not> snd ?r \<Longrightarrow> fst ?r = []"
    by (simp add: capturesLoop_found capturesLoop_moves jumpMoves_def)
  then show ?thesis
    unfolding eq by (auto simp: capturesLoop_found capturesLoop_moves)
qed

lemma getCaptures_induct [case_names step]:
  assumes "\<And>b pos cur.
     (\<And>d. d \<in> set (getDirections p) \<Longrightarrow> canJump b pos p d \<Longrightarrow>
        P (simulateJump b pos p (jumpEnemy pos d) (jumpLanding pos d)) (jumpLanding pos d)
          (Some (extendMove (startMove pos cur) (jumpLanding pos d) (jumpEnemy pos d))))
     \<Longrightarrow> P b pos cur"
  shows "P b pos cur"
proof -
  have "enemyCount p b = n \<Longrightarrow> P b pos cur" for n b pos cur
  proof (induction n arbitrary: b pos cur rule: less_induct)
    case (less n)
    show ?case
    proof (rule assms, goal_cases)
      case (1 d)
      from 1(2) obtain e where "cellAt b (jumpEnemy pos d) = Some e" "color e \<noteq> color p"
        by (auto simp: canJump_def split: option.splits)
      then have "enemyCount p (simulateJump b pos p (jumpEnemy pos d) (jumpLanding pos d))
          < enemyCount p b"
        by (rule enemyCount_simulateJump)
      with less.prems show ?case
        by (intro less.IH [OF _ refl]) simp
    qed
  qed
  then show ?thesis by simp
qed

lemma appendHops_Nil [simp]: "appendHops m [] = m"
  by (simp add: appendHops_def)

lemma appendHops_Cons:
  "appendHops m ((l, e) # hops) = appendHops (extendMove m l e) hops"
  by (simp add: appendHops_def extendMove_def)

lemma chainEnd_Cons [simp]: "chainEnd pos ((l, e) # hops) = chainEnd l hops"
  by (simp add: chainEnd_def)

lemma chainEnd_Nil [simp]: "chainEnd pos [] = pos"
  by (simp add: chainEnd_def)

lemma maximalChain_Nil: "maximalChain b pos p [] = (\<not> canContinue b pos p)"
  by (simp add: maximalChain_def)

lemma maximalChain_Cons:
  "maximalChain b pos p ((l, e) # hops) =
     ((\<exists>d\<in>set (getDirections p). canJump b pos p d \<and> l = jumpLanding pos d \<and> e = jumpEnemy pos d) \<and>
      maximalChain (simulateJump b pos p e l) l p hops)"
  by (auto simp: maximalChain_def)

lemma captures_extendMove [simp]: "captures (extendMove m l e) \<noteq> []"
  by (simp add: extendMove_def)

lemma startMove_Some [simp]: "startMove pos (Some m) = m"
  by (simp add: startMove_def)

lemma getCaptures_sound:
  "m \<in> set (getCapturesForPiece b pos p cm) \<Longrightarrow>
   \<exists>hops. m = appendHops (startMove pos cm) hops \<and> maximalChain b pos p hops \<and>
          (hops = [] \<longrightarrow> captures (startMove pos cm) \<noteq> [])"
proof (induction b pos cm arbitrary: m rule: getCaptures_induct [where p = p])
  case (step b pos cm)
  show ?case
  proof (cases "canContinue b pos p")
    case True
    with step.prems obtain d where d: "d \<in> set (getDirections p)" "canJump b pos p d"
      and m: "m \<in> set (jumpMoves b pos p (startMove pos cm) d)"
      by (subst (asm) getCaptures_unfold) (auto simp: canContinue_def jumpMoves_def split: if_splits)
    let ?l = "jumpLanding pos d" and ?e = "jumpEnemy pos d"
    from m d have "m \<in> set (getCapturesForPiece (simulateJump b pos p ?e ?l) ?l p
                          (Some (extendMove (startMove pos cm) ?l ?e)))"
      by (simp add: jumpMoves_def)
    from step.IH [OF d this] obtain hops where
      "m = appendHops (extendMove (startMove pos cm) ?l ?e) hops"
      "maximalChain (simulateJump b pos p ?e ?l) ?l p hops"
      by auto
    with d have "m = appendHops (startMove pos cm) ((?l, ?e) # hops) \<and>
        maximalChain b pos p ((?l, ?e) # hops)"
      by (auto simp: appendHops_Cons maximalChain_Cons)
    then show ?thesis by blast
  next
    case False
    with step.prems have "m = startMove pos cm" "captures (startMove pos cm) \<noteq> []"
      by (subst (asm) getCaptures_unfold; simp add: canContinue_def split: if_splits)+
    with False show ?thesis
      by (intro exI [of _ "[]"]) (simp add: maximalChain_Nil)
  qed
qed

lemma getCaptures_complete:
  "maximalChain b pos p hops \<Longrightarrow> hops \<noteq> [] \<or> captures (startMove pos cm) \<noteq> [] \<Longrightarrow>
   appendHops (startMove pos cm) hops \<in> set (getCapturesForPiece b pos p cm)"
proof (induction hops arbitrary: b pos cm)
  case Nil
  then show ?case
    by (subst getCaptures_unfold) (simp add: maximalChain_Nil canContinue_def)
next
  case (Cons h hops)
  obtain l e where h: "h = (l, e)" by (cases h)
  from Cons.prems(1) h obtain d where d: "d \<in> set (getDirections p)" "canJump b pos p d"
      "l = jumpLanding pos d" "e = jumpEnemy pos d"
    and mc: "maximalChain (simulateJump b pos p e l) l p hops"
    by (auto simp: maximalChain_Cons)
  have "appendHops (startMove l (Some (extendMove (startMove pos cm) l e))) hops
      \<in> set (getCapturesForPiece (simulateJump b pos p e l) l p
               (Some (extendMove (startMove pos cm) l e)))"
    by (rule Cons.IH [OF mc]) simp
  then have "appendHops (startMove pos cm) (h # hops) \<in> set (jumpMoves b pos p (startMove pos cm) d)"
    using d h by (simp add: jumpMoves_def appendHops_Cons)
  with d show ?case
    by (subst getCaptures_unfold) auto
qed

lemma startMove_None_hops: "appendHops (startMove pos None) hops = chainMove pos hops"
  by (simp add: appendHops_def startMove_def chainMove_def)

lemma set_getCaptures:
  "set (getCapturesForPiece b pos p None) =
     {chainMove pos hops | hops. hops \<noteq> [] \<and> maximalChain b pos p hops}"
proof (intro set_eqI iffI)
  fix m assume "m \<in> set (getCapturesForPiece b pos p None)"
  from getCaptures_sound [OF this] obtain hops where
    "m = appendHops (startMove pos None) hops" "maximalChain b pos p hops"
    "hops = [] \<longrightarrow> captures (startMove pos None) \<noteq> []"
    by blast
  moreover have "captures (startMove pos None) = []" by (simp add: startMove_def)
  ultimately show "m \<in> {chainMove pos hops | hops. hops \<noteq> [] \<and> maximalChain b pos p hops}"
    by (auto simp: startMove_None_hops)
next
  fix m assume "m \<in> {chainMove pos hops | hops. hops \<noteq> [] \<and> maximalChain b pos p hops}"
  then obtain hops where "m = chainMove pos hops" "hops \<noteq> []" "maximalChain b pos p hops"
    by blast
  with getCaptures_complete [of b pos p hops None]
  show "m \<in> set (getCapturesForPiece b pos p None)"
    by (simp add: startMove_None_hops)
qed

subsection \<open>The scan of the board\<close>

lemma scanSquares_eq:
  "scanSquares b t ps (ac, as) =
     (ac @ concat (map (capturesAt b t) ps),
      as @ concat (map (\<lambda>pos. if capturesAt b t pos = [] then simpleAt b t pos else []) ps))"
  by (induction ps arbitrary: ac as)
     (auto simp: capturesAt_def simpleAt_def Let_def split: option.splits)

lemma getCaptures_None_empty:
  "(getCapturesForPiece b pos p None = []) = (\<not> canContinue b pos p)"
proof (cases "canContinue b pos p")
  case True
  then obtain d where "d \<in> set (getDirections p)" "canJump b pos p d"
    by (auto simp: canContinue_def)
  with jumpMoves_nonempty [of b pos p d "startMove pos None"] True show ?thesis
    by (subst getCaptures_unfold) (auto simp: canContinue_def)
next
  case False
  then show ?thesis
    by (subst getCaptures_unfold) (simp add: canContinue_def startMove_def)
qed

lemma capturesAt_empty: "(capturesAt b t pos = []) = (\<not> hasCapture b t pos)"
  by (simp add: capturesAt_def hasCapture_def getCaptures_None_empty split: option.splits)

lemma chainMove_isCapture: "hops \<noteq> [] \<Longrightarrow> isCaptureMove (chainMove pos hops)"
  by (simp add: isCaptureMove_def chainMove_def)

lemma getCaptures_isCapture:
  "m \<in> set (getCapturesForPiece b pos p None) \<Longrightarrow> isCaptureMove m"
  by (auto simp: set_getCaptures chainMove_isCapture)

lemma capturesAt_isCapture: "m \<in> set (capturesAt b t pos) \<Longrightarrow> isCaptureMove m"
  by (auto simp: capturesAt_def getCaptures_isCapture split: option.splits if_splits)

lemma simpleLoop_isSimple: "m \<in> set (simpleLoop b pos ds) \<Longrightarrow> isSimpleMove m"
  by (induction ds) (auto simp: Let_def isSimpleMove_def split: if_splits)

lemma simpleAt_isSimple: "m \<in> set (simpleAt b t pos) \<Longrightarrow> isSimpleMove m"
  by (auto simp: simpleAt_def getSimpleMovesForPiece_def simpleLoop_isSimple
           split: option.splits if_splits)

lemma allowed_captures:
  "\<exists>pos\<in>set squares. hasCapture b t pos \<Longrightarrow>
   getAllowedMovesForBoard b t = concat (map (capturesAt b t) squares)"
  by (auto simp: getAllowedMovesForBoard_def scanSquares_eq capturesAt_empty)

lemma allowed_simple:
  assumes "\<not> (\<exists>pos\<in>set squares. hasCapture b t pos)"
  shows "getAllowedMovesForBoard b t = concat (map (simpleAt b t) squares)"
proof -
  have eq: "map (\<lambda>pos. if \<not> hasCapture b t pos then simpleAt b t pos else []) squares
      = map (simpleAt b t) squares"
    using assms by (intro map_cong) auto
  from assms show ?thesis
    by (simp add: getAllowedMovesForBoard_def scanSquares_eq capturesAt_empty eq)
qed

text \<open>
  C1: the list returned by \<open>getAllowedMovesForBoard\<close> is never a mix. If some piece of
  the colour to move has a capture available, the list is the concatenation, square by
  square, of the capture moves of the pieces of that colour, and every move in it is a
  capture move and not a simple move; otherwise it is the concatenation of their simple
  moves, and every move in it is a simple move and not a capture move.
\<close>

theorem allowed_all_captures_or_all_simple:
  assumes "wf_board b"
  shows "if \<exists>pos\<in>set squares. hasCapture b t pos
         then getAllowedMovesForBoard b t = concat (map (capturesAt b t) squares) \<and>
              (\<forall>m\<in>set (getAllowedMovesForBoard b t). isCaptureMove m \<and> \<not> isSimpleMove m)
         else getAllowedMovesForBoard b t = concat (map (simpleAt b t) squares) \<and>
              (\<forall>m\<in>set (getAllowedMovesForBoard b t). isSimpleMove m \<and> \<not> isCaptureMove m)"
proof (cases "\<exists>pos\<in>set squares. hasCapture b t pos")
  case True
  have "isCaptureMove m \<and> \<not> isSimpleMove m" if "m \<in> set (concat (map (capturesAt b t) squares))" for m
    using that capturesAt_isCapture [of m b t] by (auto simp: isCaptureMove_def isSimpleMove_def)
  with True show ?thesis
    by (simp add: allowed_captures)
next
  case False
  have "isSimpleMove m \<and> \<not> isCaptureMove m" if "m \<in> set (concat (map (simpleAt b t) squares))" for m
    using that simpleAt_isSimple [of m b t] by (auto simp: isCaptureMove_def isSimpleMove_def)
  with False show ?thesis
    by (simp add: allowed_simple)
qed

text \<open>
  C8: every move returned by \<open>getAllowedMovesForBoard\<close> is a jump (captures not empty,
  as many path entries as captures) or a simple step (no capture, one path entry); none
  has an empty path.
\<close>

theorem allowed_move_shape:
  assumes "wf_board b" and "m \<in> set (getAllowedMovesForBoard b t)"
  shows "((captures m \<noteq> [] \<and> length (path m) = length (captures m)) \<or>
          (captures m = [] \<and> length (path m) = 1)) \<and> path m \<noteq> []"
proof -
  have "isCaptureMove m \<or> isSimpleMove m"
  proof (cases "\<exists>pos\<in>set squares. hasCapture b t pos")
    case True
    with assms(2) capturesAt_isCapture [of m b t] show ?thesis
      by (auto simp: allowed_captures)
  next
    case False
    with assms(2) simpleAt_isSimple [of m b t] show ?thesis
      by (auto simp: allowed_simple)
  qed
  then show ?thesis
    by (auto simp: isCaptureMove_def isSimpleMove_def)
qed

lemma in_grid_list:
  "(pos \<in> set (concat (map (\<lambda>r. map (\<lambda>c. \<lparr>row = r, col = c\<rparr>) cs) rs))) =
   (row pos \<in> set rs \<and> col pos \<in> set cs)"
proof
  assume "pos \<in> set (concat (map (\<lambda>r. map (\<lambda>c. \<lparr>row = r, col = c\<rparr>) cs) rs))"
  then obtain r c where "r \<in> set rs" "c \<in> set cs" "pos = \<lparr>row = r, col = c\<rparr>"
    by auto
  then show "row pos \<in> set rs \<and> col pos \<in> set cs" by simp
next
  assume a: "row pos \<in> set rs \<and> col pos \<in> set cs"
  have "pos = \<lparr>row = row pos, col = col pos\<rparr>" by simp
  with a have "\<exists>r\<in>set rs. \<exists>c\<in>set cs. pos = \<lparr>row = r, col = c\<rparr>" by blast
  then show "pos \<in> set (concat (map (\<lambda>r. map (\<lambda>c. \<lparr>row = r, col = c\<rparr>) cs) rs))"
    by auto
qed

lemma set_squares: "set squares = {pos. inBounds pos}"
proof (rule set_eqI)
  fix pos
  have "(pos \<in> set squares) = (row pos \<in> {0..7} \<and> col pos \<in> {0..7})"
    unfolding squares_def in_grid_list set_upto ..
  also have "\<dots> = inBounds pos"
    by (simp add: inBounds_def not_less) linarith
  finally show "(pos \<in> set squares) = (pos \<in> {pos. inBounds pos})" by simp
qed

lemma cellAt_inBounds: "wf_board b \<Longrightarrow> cellAt b pos = Some p \<Longrightarrow> inBounds pos"
  by (auto simp: wf_board_def cellAt_def inBounds_def list_all_iff split: if_splits)

lemma validChain_append:
  "validChain b pos p (h1 @ h2) =
     (validChain b pos p h1 \<and> validChain (simulateChain b pos p h1) (chainEnd pos h1) p h2)"
  by (induction h1 arbitrary: b pos) auto

lemma validChain_continue:
  "validChain b pos p (h1 @ h2) \<Longrightarrow> h2 \<noteq> [] \<Longrightarrow>
   canContinue (simulateChain b pos p h1) (chainEnd pos h1) p"
  by (cases h2) (auto simp: validChain_append canContinue_def)

lemma hops_prefix:
  assumes "strict_prefix (map fst h1) (map fst h2)" and "strict_prefix (map snd h1) (map snd h2)"
  shows "\<exists>r. r \<noteq> [] \<and> h2 = h1 @ r"
proof -
  let ?n = "length h1"
  from assms(1) have len: "?n < length h2"
    using prefix_length_less by fastforce
  from assms have "map fst h1 = take ?n (map fst h2)" "map snd h1 = take ?n (map snd h2)"
    by (auto simp: strict_prefix_def prefix_def)
  then have "map fst h1 = map fst (take ?n h2)" "map snd h1 = map snd (take ?n h2)"
    by (simp_all add: take_map)
  then have "h1 = take ?n h2"
    by (rule pair_list_eqI)
  then have "h2 = h1 @ drop ?n h2"
    by (metis append_take_drop_id)
  moreover from len have "drop ?n h2 \<noteq> []" by simp
  ultimately show ?thesis by blast
qed

lemma chainMove_inject [simp]: "(chainMove pos h = chainMove pos' h') = (pos = pos' \<and> h = h')"
  by (auto simp: chainMove_def intro: pair_list_eqI)

lemma maximal_no_prefix:
  assumes "maximalChain b pos p h1" and "maximalChain b pos p h2"
    and "strict_prefix (map fst h1) (map fst h2)" and "strict_prefix (map snd h1) (map snd h2)"
  shows False
proof -
  from hops_prefix [OF assms(3,4)] obtain r where r: "r \<noteq> []" "h2 = h1 @ r" by blast
  with assms(2) have "canContinue (simulateChain b pos p h1) (chainEnd pos h1) p"
    by (auto simp: maximalChain_def intro: validChain_continue)
  with assms(1) show False by (simp add: maximalChain_def)
qed

lemma allowed_capture_iff:
  assumes "wf_board b"
  shows "(m \<in> set (getAllowedMovesForBoard b t) \<and> captures m \<noteq> []) =
         (\<exists>pos piece hops. cellAt b pos = Some piece \<and> color piece = t \<and> hops \<noteq> [] \<and>
             maximalChain b pos piece hops \<and> m = chainMove pos hops)"
    (is "?L = ?R")
proof
  assume L: ?L
  have hc: "\<exists>pos\<in>set squares. hasCapture b t pos"
  proof (rule ccontr)
    assume n: "\<not> ?thesis"
    from L have "m \<in> set (concat (map (simpleAt b t) squares))"
      by (simp add: allowed_simple [OF n])
    then have "isSimpleMove m"
      by (auto dest: simpleAt_isSimple)
    with L show False
      by (simp add: isSimpleMove_def)
  qed
  from L have "m \<in> set (concat (map (capturesAt b t) squares))"
    by (simp add: allowed_captures [OF hc])
  then obtain pos where "m \<in> set (capturesAt b t pos)"
    by auto
  then obtain piece where "cellAt b pos = Some piece" "color piece = t"
      "m \<in> set (getCapturesForPiece b pos piece None)"
    by (cases "cellAt b pos") (auto simp: capturesAt_def split: if_splits)
  then show ?R
    unfolding set_getCaptures by blast
next
  assume ?R
  then obtain pos piece hops where *: "cellAt b pos = Some piece" "color piece = t" "hops \<noteq> []"
    "maximalChain b pos piece hops" "m = chainMove pos hops"
    by blast
  then have m: "m \<in> set (capturesAt b t pos)"
    by (auto simp: capturesAt_def set_getCaptures)
  from * assms have pos: "pos \<in> set squares"
    by (auto simp: set_squares dest: cellAt_inBounds)
  from m have "capturesAt b t pos \<noteq> []" by auto
  with pos have "\<exists>pos\<in>set squares. hasCapture b t pos"
    by (auto simp: capturesAt_empty)
  then have "getAllowedMovesForBoard b t = concat (map (capturesAt b t) squares)"
    by (rule allowed_captures)
  moreover from m pos have "m \<in> set (concat (map (capturesAt b t) squares))"
    by auto
  moreover from * have "captures m \<noteq> []"
    by (simp add: chainMove_def)
  ultimately show ?L by simp
qed

subsection \<open>The program on concrete boards\<close>

lemma wf_doubleJumpBoard: "wf_board doubleJumpBoard"
  by code_simp

lemma allowed_doubleJumpBoard: "getAllowedMovesForBoard doubleJumpBoard Red = [doubleJump]"
  by code_simp

lemma allowed_promotionBoard:
  "getAllowedMovesForBoard promotionBoard Red =
     [\<lparr>from_pos = sq 2 1, path = [sq 0 3], captures = [sq 1 2]\<rparr>]"
  by code_simp

lemma allowed_initialBoard:
  "getAllowedMovesForBoard initialBoard Red =
    [\<lparr>from_pos = sq 5 0, path = [sq 4 1], captures = []\<rparr>,
     \<lparr>from_pos = sq 5 2, path = [sq 4 1], captures = []\<rparr>,
     \<lparr>from_pos = sq 5 2, path = [sq 4 3], captures = []\<rparr>,
     \<lparr>from_pos = sq 5 4, path = [sq 4 3], captures = []\<rparr>,
     \<lparr>from_pos = sq 5 4, path = [sq 4 5], captures = []\<rparr>,
     \<lparr>from_pos = sq 5 6, path = [sq 4 5], captures = []\<rparr>,
     \<lparr>from_pos = sq 5 6, path = [sq 4 7], captures = []\<rparr>]"
  by code_simp

lemma hasCapture_doubleJumpBoard: "hasCapture doubleJumpBoard Red (sq 4 1)"
  by code_simp

theorem allowed_all_captures_or_all_simple_witness:
  "wf_board doubleJumpBoard \<and>
   getAllowedMovesForBoard doubleJumpBoard Red =
     concat (map (capturesAt doubleJumpBoard Red) squares) \<and>
   getAllowedMovesForBoard doubleJumpBoard Red = [doubleJump] \<and>
   isCaptureMove doubleJump \<and> \<not> isSimpleMove doubleJump"
proof -
  have "sq 4 1 \<in> set squares" by code_simp
  with hasCapture_doubleJumpBoard
  have "\<exists>pos\<in>set squares. hasCapture doubleJumpBoard Red pos" by blast
  with allowed_all_captures_or_all_simple [OF wf_doubleJumpBoard, of Red]
  show ?thesis
    by (simp add: wf_doubleJumpBoard allowed_doubleJumpBoard)
qed

theorem allowed_move_shape_witness:
  "wf_board doubleJumpBoard \<and> doubleJump \<in> set (getAllowedMovesForBoard doubleJumpBoard Red) \<and>
   captures doubleJump \<noteq> [] \<and> length (path doubleJump) = length (captures doubleJump) \<and>
   path doubleJump \<noteq> []"
proof -
  have m: "doubleJump \<in> set (getAllowedMovesForBoard doubleJumpBoard Red)"
    by (simp add: allowed_doubleJumpBoard)
  have c: "captures doubleJump \<noteq> []" by (simp add: doubleJump_def)
  from allowed_move_shape [OF wf_doubleJumpBoard m] m c show ?thesis
    by (simp add: wf_doubleJumpBoard)
qed

subsection \<open>Maximal chains\<close>

lemma allowed_kinds:
  "(\<forall>m\<in>set (getAllowedMovesForBoard b t). isCaptureMove m) \<or>
   (\<forall>m\<in>set (getAllowedMovesForBoard b t). isSimpleMove m)"
proof (cases "\<exists>pos\<in>set squares. hasCapture b t pos")
  case True
  then show ?thesis
    by (auto simp: allowed_captures dest: capturesAt_isCapture)
next
  case False
  then show ?thesis
    by (auto simp: allowed_simple dest: simpleAt_isSimple)
qed

lemma allowed_no_strict_prefix:
  assumes wf: "wf_board b"
    and m1: "m1 \<in> set (getAllowedMovesForBoard b t)"
    and m2: "m2 \<in> set (getAllowedMovesForBoard b t)"
  shows "\<not> isStrictPrefixMove m1 m2"
proof
  assume sp: "isStrictPrefixMove m1 m2"
  then have c2: "captures m2 \<noteq> []"
    by (auto simp: isStrictPrefixMove_def)
  from sp have "length (path m1) < length (path m2)"
    by (auto simp: isStrictPrefixMove_def prefix_length_less)
  with c2 m1 m2 allowed_kinds [of b t] have c1: "captures m1 \<noteq> []"
    by (auto simp: isCaptureMove_def isSimpleMove_def)
  from m1 c1 allowed_capture_iff [OF wf, of m1 t] obtain pos1 p1 h1 where
    1: "cellAt b pos1 = Some p1" "maximalChain b pos1 p1 h1" "m1 = chainMove pos1 h1"
    by blast
  from m2 c2 allowed_capture_iff [OF wf, of m2 t] obtain pos2 p2 h2 where
    2: "cellAt b pos2 = Some p2" "maximalChain b pos2 p2 h2" "m2 = chainMove pos2 h2"
    by blast
  from sp 1 2 have "pos1 = pos2"
    by (simp add: isStrictPrefixMove_def chainMove_def)
  with 1 2 have "p1 = p2" by simp
  from sp 1 2 have "strict_prefix (map fst h1) (map fst h2)" "strict_prefix (map snd h1) (map snd h2)"
    by (simp_all add: isStrictPrefixMove_def chainMove_def)
  with 1 2 \<open>pos1 = pos2\<close> \<open>p1 = p2\<close> show False
    by (auto dest: maximal_no_prefix)
qed

lemma allowed_capture_maximal:
  assumes wf: "wf_board b"
    and m: "m \<in> set (getAllowedMovesForBoard b t)" and c: "captures m \<noteq> []"
  shows "\<exists>piece. cellAt b (from_pos m) = Some piece \<and> color piece = t \<and>
           validChain b (from_pos m) piece (zip (path m) (captures m)) \<and>
           \<not> canContinue (simulateChain b (from_pos m) piece (zip (path m) (captures m)))
                (last (path m)) piece"
proof -
  from m c allowed_capture_iff [OF wf, of m t] obtain pos piece hops where
    *: "cellAt b pos = Some piece" "color piece = t" "hops \<noteq> []"
       "maximalChain b pos piece hops" "m = chainMove pos hops"
    by blast
  have z: "zip (path m) (captures m) = hops"
    by (simp add: * chainMove_def zip_map_fst_snd)
  from * have l: "last (path m) = chainEnd pos hops"
    by (simp add: chainMove_def chainEnd_def)
  from * have f: "from_pos m = pos" by (simp add: chainMove_def)
  from * show ?thesis
    unfolding z l f by (auto simp: maximalChain_def)
qed

lemma allowed_two_jumps:
  assumes wf: "wf_board b"
    and p: "cellAt b pos = Some piece" "color piece = t"
    and mc: "maximalChain b pos piece [h1, h2]"
  shows "chainMove pos [h1, h2] \<in> set (getAllowedMovesForBoard b t) \<and>
         chainMove pos [h1] \<notin> set (getAllowedMovesForBoard b t)"
proof
  from p mc allowed_capture_iff [OF wf, of "chainMove pos [h1, h2]" t]
  show "chainMove pos [h1, h2] \<in> set (getAllowedMovesForBoard b t)"
    by blast
next
  show "chainMove pos [h1] \<notin> set (getAllowedMovesForBoard b t)"
  proof
    assume "chainMove pos [h1] \<in> set (getAllowedMovesForBoard b t)"
    moreover have "captures (chainMove pos [h1]) \<noteq> []" by (simp add: chainMove_def)
    ultimately obtain pos' piece' hops where
      *: "cellAt b pos' = Some piece'" "maximalChain b pos' piece' hops"
         "chainMove pos [h1] = chainMove pos' hops"
      using allowed_capture_iff [OF wf, of "chainMove pos [h1]" t] by blast
    then have "pos' = pos" "hops = [h1]" by simp_all
    with * p have "maximalChain b pos piece [h1]" by simp
    moreover from mc have "canContinue (simulateChain b pos piece [h1]) (chainEnd pos [h1]) piece"
      using validChain_continue [of b pos piece "[h1]" "[h2]"]
      by (simp add: maximalChain_def)
    ultimately show False by (simp add: maximalChain_def)
  qed
qed

text \<open>
  C2: every capture move returned by \<open>getAllowedMovesForBoard\<close> is maximal along its
  branch. No returned move is a strict prefix of another returned move (same origin, path
  and captures proper prefixes). Every returned capture move is a valid chain of jumps of
  the piece on its origin square after which, on the board simulated along the chain, the
  piece has no further jump from its last landing square; so a chain that can be extended
  is not returned. In particular, where a piece can make two jumps in sequence and no third
  one, the two-jump move (two path entries, two captures) is returned and its one-jump
  prefix is not.
\<close>

theorem capture_chains_maximal:
  assumes "wf_board b"
  shows "(\<forall>m1\<in>set (getAllowedMovesForBoard b t). \<forall>m2\<in>set (getAllowedMovesForBoard b t).
            \<not> isStrictPrefixMove m1 m2) \<and>
         (\<forall>m\<in>set (getAllowedMovesForBoard b t). captures m \<noteq> [] \<longrightarrow>
            (\<exists>piece. cellAt b (from_pos m) = Some piece \<and> color piece = t \<and>
               validChain b (from_pos m) piece (zip (path m) (captures m)) \<and>
               \<not> canContinue (simulateChain b (from_pos m) piece (zip (path m) (captures m)))
                    (last (path m)) piece)) \<and>
         (\<forall>pos piece h1 h2.
            cellAt b pos = Some piece \<and> color piece = t \<and> maximalChain b pos piece [h1, h2] \<longrightarrow>
            chainMove pos [h1, h2] \<in> set (getAllowedMovesForBoard b t) \<and>
            chainMove pos [h1] \<notin> set (getAllowedMovesForBoard b t))"
  using assms allowed_no_strict_prefix allowed_capture_maximal allowed_two_jumps
  by blast

lemma maximal_doubleJump:
  "maximalChain doubleJumpBoard (sq 4 1) redMan [(sq 2 3, sq 3 2), (sq 0 5, sq 1 4)]"
  by code_simp

theorem capture_chains_maximal_witness:
  "wf_board doubleJumpBoard \<and>
   cellAt doubleJumpBoard (sq 4 1) = Some redMan \<and>
   maximalChain doubleJumpBoard (sq 4 1) redMan [(sq 2 3, sq 3 2), (sq 0 5, sq 1 4)] \<and>
   chainMove (sq 4 1) [(sq 2 3, sq 3 2), (sq 0 5, sq 1 4)]
     \<in> set (getAllowedMovesForBoard doubleJumpBoard Red) \<and>
   chainMove (sq 4 1) [(sq 2 3, sq 3 2)] \<notin> set (getAllowedMovesForBoard doubleJumpBoard Red) \<and>
   getAllowedMovesForBoard doubleJumpBoard Red =
     [\<lparr>from_pos = sq 4 1, path = [sq 2 3, sq 0 5], captures = [sq 3 2, sq 1 4]\<rparr>]"
proof -
  have c: "cellAt doubleJumpBoard (sq 4 1) = Some redMan" by code_simp
  have r: "color redMan = Red" by (simp add: redMan_def)
  from capture_chains_maximal [OF wf_doubleJumpBoard, of Red] c r maximal_doubleJump
  have "chainMove (sq 4 1) [(sq 2 3, sq 3 2), (sq 0 5, sq 1 4)]
     \<in> set (getAllowedMovesForBoard doubleJumpBoard Red) \<and>
     chainMove (sq 4 1) [(sq 2 3, sq 3 2)] \<notin> set (getAllowedMovesForBoard doubleJumpBoard Red)"
    by blast
  with c maximal_doubleJump show ?thesis
    by (simp add: wf_doubleJumpBoard allowed_doubleJumpBoard doubleJump_def)
qed

subsection \<open>Reads and writes on a board\<close>

lemma wf_board_nth: "wf_board b \<Longrightarrow> i < 8 \<Longrightarrow> length (b ! i) = 8"
  by (simp add: wf_board_def list_all_length)

lemma wf_setCell: "wf_board b \<Longrightarrow> wf_board (setCell b p v)"
  by (auto simp: wf_board_def setCell_def list_all_length nth_list_update)

lemma wf_cloneBoard: "wf_board b \<Longrightarrow> wf_board (cloneBoard b)"
  by (simp add: cloneBoard_id)

lemma cellAt_setCell_same:
  "wf_board b \<Longrightarrow> inBounds p \<Longrightarrow> cellAt (setCell b p v) p = v"
  by (auto simp: cellAt_def setCell_def inBounds_def wf_board_def list_all_length)

lemma cellAt_setCell_other:
  "p \<noteq> q \<Longrightarrow> cellAt (setCell b p v) q = cellAt b q"
proof -
  assume "p \<noteq> q"
  then have "row p \<noteq> row q \<or> col p \<noteq> col q"
    by (auto intro: Position.equality)
  then show ?thesis
    by (auto simp: cellAt_def setCell_def nth_list_update)
qed

lemma clearCaptures_ok:
  "list_all inBounds caps \<Longrightarrow> wf_board b \<Longrightarrow>
   \<exists>b'. clearCaptures b caps = Inr b' \<and> wf_board b'"
  by (induction caps arbitrary: b) (auto simp: inBounds_def wf_setCell)

lemma promoteIfNeeded_inline:
  "(if type piece = Man then
      (if color piece = Red \<and> r = 0 then piece\<lparr>type := King\<rparr>
       else if color piece = Black \<and> r = 7 then piece\<lparr>type := King\<rparr>
       else piece)
    else piece) = promoteIfNeeded piece r"
  by (cases "type piece") (auto simp: promoteIfNeeded_def)

lemma updateBoard_ok:
  assumes wf: "wf_board b" and p: "cellAt b (from_pos m) = Some piece"
    and path: "path m \<noteq> []" "inBounds (last (path m))"
    and caps: "list_all inBounds (captures m)"
  shows "\<exists>b'. updateBoard b m = Inr b' \<and> wf_board b' \<and>
           cellAt b' (last (path m)) = Some (promoteIfNeeded piece (row (last (path m))))"
proof -
  from wf p have fb: "inBounds (from_pos m)" by (rule cellAt_inBounds)
  from clearCaptures_ok [OF caps wf_setCell [OF wf]] obtain b1 where
    b1: "clearCaptures (setCell b (from_pos m) None) (captures m) = Inr b1" "wf_board b1"
    by blast
  let ?fp = "last (path m)"
  let ?b' = "setCell b1 ?fp (Some (promoteIfNeeded piece (row ?fp)))"
  from fb p b1 path have "updateBoard b m = Inr ?b'"
    by (simp add: updateBoard_def cloneBoard_id Let_def inBounds_def promoteIfNeeded_inline)
  moreover from b1 have "wf_board ?b'" by (simp add: wf_setCell)
  moreover from b1 path have "cellAt ?b' ?fp = Some (promoteIfNeeded piece (row ?fp))"
    by (simp add: cellAt_setCell_same)
  ultimately show ?thesis by blast
qed

text \<open>
  C4: \<open>updateBoard\<close> promotes exactly at the back rank. Applied to a move whose origin
  square holds a piece (the move inside the grid), it returns a board whose destination
  square, the last path entry, holds a king of the piece's colour when the piece is a red
  man and that entry has row 0, or a black man and row 7; in every other case, and for
  every king, the destination square holds the piece unchanged.
\<close>

theorem updateBoard_promotes_at_back_rank:
  assumes "wf_board b" and "cellAt b (from_pos m) = Some piece"
    and "path m \<noteq> []" and "inBounds (last (path m))" and "list_all inBounds (captures m)"
  shows "\<exists>b'. updateBoard b m = Inr b' \<and>
           cellAt b' (last (path m)) =
             (if type piece = Man \<and>
                 (color piece = Red \<and> row (last (path m)) = 0 \<or>
                  color piece = Black \<and> row (last (path m)) = 7)
              then Some \<lparr>color = color piece, type = King\<rparr>
              else Some piece)"
proof -
  from updateBoard_ok [OF assms] obtain b' where
    "updateBoard b m = Inr b'"
    "cellAt b' (last (path m)) = Some (promoteIfNeeded piece (row (last (path m))))"
    by blast
  moreover have "piece\<lparr>type := King\<rparr> = \<lparr>color = color piece, type = King\<rparr>"
    by simp
  moreover have "type piece \<noteq> Man \<Longrightarrow> type piece = King"
    by (cases "type piece") simp_all
  ultimately show ?thesis
    by (auto simp: promoteIfNeeded_def)
qed

lemma cell_promotionBoard: "cellAt promotionBoard (sq 2 1) = Some redMan"
  by code_simp

lemma wf_promotionBoard: "wf_board promotionBoard"
  by code_simp

theorem updateBoard_promotes_at_back_rank_witness:
  "wf_board promotionBoard \<and> cellAt promotionBoard (sq 2 1) = Some redMan \<and>
   (\<exists>b'. updateBoard promotionBoard
            \<lparr>from_pos = sq 2 1, path = [sq 0 3], captures = [sq 1 2]\<rparr> = Inr b' \<and>
         cellAt b' (sq 0 3) = Some \<lparr>color = Red, type = King\<rparr>)"
proof -
  let ?m = "\<lparr>from_pos = sq 2 1, path = [sq 0 3], captures = [sq 1 2]\<rparr>"
  have c: "cellAt promotionBoard (from_pos ?m) = Some redMan"
    by (simp add: cell_promotionBoard)
  have p: "path ?m \<noteq> []" "inBounds (last (path ?m))" "list_all inBounds (captures ?m)"
    by (simp_all add: inBounds_def sq_def)
  from updateBoard_promotes_at_back_rank [OF wf_promotionBoard c p]
  have "\<exists>b'. updateBoard promotionBoard ?m = Inr b' \<and>
          cellAt b' (sq 0 3) = Some \<lparr>color = Red, type = King\<rparr>"
    by (simp add: redMan_def sq_def)
  then show ?thesis
    by (simp add: wf_promotionBoard cell_promotionBoard)
qed

subsection \<open>The simulated boards of a chain\<close>

lemma wf_simulateJump: "wf_board b \<Longrightarrow> wf_board (simulateJump b pos p e l)"
  by (simp add: simulateJump_def cloneBoard_id wf_setCell)

lemma direction_cases:
  "d \<in> set (getDirections p) \<Longrightarrow> (fst d = 1 \<or> fst d = -1) \<and> (snd d = 1 \<or> snd d = -1)"
  by (auto simp: getDirections_def split: if_splits)

lemma man_direction:
  "d \<in> set (getDirections p) \<Longrightarrow> type p = Man \<Longrightarrow>
   fst d = (if color p = Red then -1 else 1)"
  by (auto simp: getDirections_def split: if_splits)

lemma jumpLanding_neq: "d \<in> set (getDirections p) \<Longrightarrow> jumpLanding pos d \<noteq> pos"
proof
  assume d: "d \<in> set (getDirections p)" and "jumpLanding pos d = pos"
  then have "row (jumpLanding pos d) = row pos" by simp
  with direction_cases [OF d] show False
    by (auto simp: jumpLanding_def)
qed

lemma cellAt_simulateJump_landing:
  "wf_board b \<Longrightarrow> inBounds l \<Longrightarrow> l \<noteq> pos \<Longrightarrow> cellAt (simulateJump b pos p e l) l = Some p"
  by (simp add: simulateJump_def cloneBoard_id cellAt_setCell_other cellAt_setCell_same wf_setCell)

lemma chain_piece_at_end:
  "wf_board b \<Longrightarrow> validChain b pos p hops \<Longrightarrow> hops \<noteq> [] \<Longrightarrow>
   cellAt (simulateChain b pos p hops) (chainEnd pos hops) = Some p"
proof (induction hops arbitrary: b pos)
  case Nil
  then show ?case by simp
next
  case (Cons h hops)
  obtain l e where h: "h = (l, e)" by (cases h)
  with Cons.prems obtain d where d: "d \<in> set (getDirections p)" "canJump b pos p d"
      "l = jumpLanding pos d"
    and v: "validChain (simulateJump b pos p e l) l p hops"
    by auto
  from Cons.prems have wf: "wf_board (simulateJump b pos p e l)" by (simp add: wf_simulateJump)
  show ?case
  proof (cases "hops = []")
    case True
    from d have "inBounds l" "l \<noteq> pos"
      by (simp_all add: canJump_def jumpLanding_neq)
    with True h Cons.prems(1) show ?thesis
      by (simp add: cellAt_simulateJump_landing)
  next
    case False
    with Cons.IH [OF wf v] h show ?thesis by simp
  qed
qed

lemma validChain_inBounds:
  "validChain b pos p hops \<Longrightarrow>
   list_all inBounds (map fst hops) \<and> list_all inBounds (map snd hops)"
  by (induction hops arbitrary: b pos) (auto simp: canJump_def)

lemma validChain_take: "validChain b pos p hops \<Longrightarrow> validChain b pos p (take n hops)"
  using validChain_append [of b pos p "take n hops" "drop n hops"] by simp

lemma chainEnd_take:
  "0 < n \<Longrightarrow> n \<le> length hops \<Longrightarrow> chainEnd pos (take n hops) = fst (hops ! (n - 1))"
  by (cases n) (simp_all add: chainEnd_def last_map last_conv_nth take_Suc_conv_app_nth nth_append)

lemma man_never_continues_from_back_rank:
  "validChain b pos p hops \<Longrightarrow> type p = Man \<Longrightarrow> Suc i < length hops \<Longrightarrow>
   row (fst (hops ! i)) \<noteq> backRank (color p)"
proof (induction hops arbitrary: b pos i)
  case Nil
  then show ?case by simp
next
  case (Cons h hops)
  obtain l e where h: "h = (l, e)" by (cases h)
  with Cons.prems have v: "validChain (simulateJump b pos p e l) l p hops" by simp
  show ?case
  proof (cases i)
    case 0
    with Cons.prems obtain h2 rest where hops: "hops = h2 # rest" by (cases hops) auto
    obtain l2 e2 where h2: "h2 = (l2, e2)" by (cases h2)
    from v hops h2 obtain d where d: "d \<in> set (getDirections p)"
        "inBounds (jumpLanding l d)"
      by (auto simp: canJump_def)
    from man_direction [OF d(1) Cons.prems(2)] d(2) have "row l \<noteq> backRank (color p)"
      by (auto simp: jumpLanding_def inBounds_def backRank_def split: if_splits)
    with 0 h show ?thesis by simp
  next
    case (Suc j)
    with Cons.prems Cons.IH [OF v, of j] show ?thesis by simp
  qed
qed

lemma getCaptures_chain:
  assumes "m \<in> set (getCapturesForPiece b pos piece None)"
  shows "\<exists>hops. hops \<noteq> [] \<and> maximalChain b pos piece hops \<and> m = chainMove pos hops \<and>
           zip (path m) (captures m) = hops"
proof -
  from assms obtain hops where "hops \<noteq> []" "maximalChain b pos piece hops" "m = chainMove pos hops"
    unfolding set_getCaptures by blast
  moreover then have "zip (path m) (captures m) = hops"
    by (simp add: chainMove_def zip_map_fst_snd)
  ultimately show ?thesis by blast
qed

text \<open>
  C7: in a capture chain returned for a piece, every hop is a jump in a direction of the
  piece as it was at the start of the move (\<open>validChain\<close> takes the directions of that
  piece at every hop), and the simulated board holds that same, unpromoted piece on the
  landing square after every hop. So a man does not continue a chain from the opponent's
  back rank: no landing square but the last is on it. The promotion is applied once, by
  \<open>updateBoard\<close>, which puts \<open>promoteIfNeeded piece\<close> on the last landing square.
\<close>

theorem chain_keeps_original_piece:
  assumes "wf_board b" and "cellAt b pos = Some piece"
    and "m \<in> set (getCapturesForPiece b pos piece None)"
  shows "validChain b pos piece (zip (path m) (captures m)) \<and>
         (\<forall>n. 0 < n \<and> n \<le> length (path m) \<longrightarrow>
            cellAt (simulateChain b pos piece (take n (zip (path m) (captures m))))
              (path m ! (n - 1)) = Some piece) \<and>
         (type piece = Man \<longrightarrow>
            (\<forall>i. Suc i < length (path m) \<longrightarrow> row (path m ! i) \<noteq> backRank (color piece))) \<and>
         (\<exists>b'. updateBoard b m = Inr b' \<and>
            cellAt b' (last (path m)) = Some (promoteIfNeeded piece (row (last (path m)))))"
proof -
  from getCaptures_chain [OF assms(3)] obtain hops where
    hops: "hops \<noteq> []" "maximalChain b pos piece hops" "m = chainMove pos hops"
      and z: "zip (path m) (captures m) = hops"
    by blast
  from hops have v: "validChain b pos piece hops" by (simp add: maximalChain_def)
  from hops have pm: "path m = map fst hops" and cm: "captures m = map snd hops"
    and fm: "from_pos m = pos"
    by (simp_all add: chainMove_def)
  have 1: "validChain b pos piece (zip (path m) (captures m))"
    using v z by simp
  have 2: "cellAt (simulateChain b pos piece (take n (zip (path m) (captures m))))
              (path m ! (n - 1)) = Some piece" if n: "0 < n \<and> n \<le> length (path m)" for n
  proof -
    from n pm have n': "0 < n" "n \<le> length hops" by simp_all
    then have "take n hops \<noteq> []" using hops(1) by (cases hops) auto
    from chain_piece_at_end [OF assms(1) validChain_take [OF v] this]
    have "cellAt (simulateChain b pos piece (take n hops)) (chainEnd pos (take n hops)) = Some piece" .
    moreover from n' have "chainEnd pos (take n hops) = path m ! (n - 1)"
      by (simp add: chainEnd_take pm)
    ultimately show ?thesis by (simp add: z)
  qed
  have 3: "row (path m ! i) \<noteq> backRank (color piece)"
    if "type piece = Man" "Suc i < length (path m)" for i
    using man_never_continues_from_back_rank [OF v that(1), of i] that(2)
    by (simp add: pm)
  from validChain_inBounds [OF v] have ib: "list_all inBounds (path m)" "list_all inBounds (captures m)"
    by (simp_all add: pm cm)
  from hops(1) have ne: "path m \<noteq> []" by (simp add: pm)
  with ib have "inBounds (last (path m))"
    by (simp add: list_all_iff)
  from updateBoard_ok [OF assms(1) _ ne this ib(2), of piece] assms(2) fm
  have 4: "\<exists>b'. updateBoard b m = Inr b' \<and>
            cellAt b' (last (path m)) = Some (promoteIfNeeded piece (row (last (path m))))"
    by auto
  from 1 2 3 4 show ?thesis by blast
qed

lemma captures_promotionBoard:
  "getCapturesForPiece promotionBoard (sq 2 1) redMan None =
     [\<lparr>from_pos = sq 2 1, path = [sq 0 3], captures = [sq 1 2]\<rparr>]"
  by code_simp

lemma king_could_continue:
  "canJump (simulateJump promotionBoard (sq 2 1) redMan (sq 1 2) (sq 0 3)) (sq 0 3)
     \<lparr>color = Red, type = King\<rparr> (1, 1)"
  by code_simp

theorem chain_keeps_original_piece_witness:
  "wf_board promotionBoard \<and> cellAt promotionBoard (sq 2 1) = Some redMan \<and>
   getCapturesForPiece promotionBoard (sq 2 1) redMan None =
     [\<lparr>from_pos = sq 2 1, path = [sq 0 3], captures = [sq 1 2]\<rparr>] \<and>
   cellAt (simulateJump promotionBoard (sq 2 1) redMan (sq 1 2) (sq 0 3)) (sq 0 3) = Some redMan \<and>
   canJump (simulateJump promotionBoard (sq 2 1) redMan (sq 1 2) (sq 0 3)) (sq 0 3)
     \<lparr>color = Red, type = King\<rparr> (1, 1) \<and>
   (\<exists>b'. updateBoard promotionBoard
            \<lparr>from_pos = sq 2 1, path = [sq 0 3], captures = [sq 1 2]\<rparr> = Inr b' \<and>
         cellAt b' (sq 0 3) = Some \<lparr>color = Red, type = King\<rparr>)"
proof -
  let ?m = "\<lparr>from_pos = sq 2 1, path = [sq 0 3], captures = [sq 1 2]\<rparr>"
  have m: "?m \<in> set (getCapturesForPiece promotionBoard (sq 2 1) redMan None)"
    by (simp add: captures_promotionBoard)
  note t = chain_keeps_original_piece [OF wf_promotionBoard cell_promotionBoard m]
  from t have "cellAt (simulateChain promotionBoard (sq 2 1) redMan (take 1 (zip (path ?m) (captures ?m))))
              (path ?m ! (1 - 1)) = Some redMan"
    by (elim conjE allE [of _ 1]) simp
  then have a: "cellAt (simulateJump promotionBoard (sq 2 1) redMan (sq 1 2) (sq 0 3)) (sq 0 3)
      = Some redMan"
    by simp
  have "promoteIfNeeded redMan (row (sq 0 3)) = \<lparr>color = Red, type = King\<rparr>"
    by (simp add: promoteIfNeeded_def redMan_def sq_def)
  with t have b: "\<exists>b'. updateBoard promotionBoard ?m = Inr b' \<and>
         cellAt b' (sq 0 3) = Some \<lparr>color = Red, type = King\<rparr>"
    by simp
  from a b show ?thesis
    by (simp add: wf_promotionBoard cell_promotionBoard captures_promotionBoard king_could_continue)
qed

subsection \<open>The search\<close>

lemma simpleLoop_grid:
  "m \<in> set (simpleLoop b pos ds) \<Longrightarrow>
   from_pos m = pos \<and> path m \<noteq> [] \<and> inBounds (last (path m)) \<and> captures m = []"
  by (induction ds) (auto simp: Let_def inBounds_def split: if_splits)

lemma allowed_gridMove:
  assumes wf: "wf_board b" and m: "m \<in> set (getAllowedMovesForBoard b t)"
  shows "gridMove b m"
proof (cases "captures m = []")
  case True
  have "\<not> (\<exists>pos\<in>set squares. hasCapture b t pos)"
  proof
    assume "\<exists>pos\<in>set squares. hasCapture b t pos"
    with m have "m \<in> set (concat (map (capturesAt b t) squares))"
      by (simp add: allowed_captures)
    then have "isCaptureMove m" by (auto dest: capturesAt_isCapture)
    with True show False by (simp add: isCaptureMove_def)
  qed
  with m have "m \<in> set (concat (map (simpleAt b t) squares))"
    by (simp add: allowed_simple)
  then obtain pos where "m \<in> set (simpleAt b t pos)" by auto
  then obtain piece where "cellAt b pos = Some piece" "m \<in> set (simpleLoop b pos (getDirections piece))"
    by (cases "cellAt b pos") (auto simp: simpleAt_def getSimpleMovesForPiece_def split: if_splits)
  with simpleLoop_grid [of m b pos "getDirections piece"] show ?thesis
    by (simp add: gridMove_def)
next
  case False
  with m allowed_capture_iff [OF wf, of m t] obtain pos piece hops where
    *: "cellAt b pos = Some piece" "hops \<noteq> []" "maximalChain b pos piece hops" "m = chainMove pos hops"
    by blast
  then have "validChain b pos piece hops" by (simp add: maximalChain_def)
  from validChain_inBounds [OF this] have "list_all inBounds (path m)" "list_all inBounds (captures m)"
    using * by (simp_all add: chainMove_def)
  moreover from * have "path m \<noteq> []" "from_pos m = pos" by (simp_all add: chainMove_def)
  moreover then have "last (path m) \<in> set (path m)" by simp
  ultimately show ?thesis
    using * by (simp add: gridMove_def list_all_iff)
qed

lemma updateBoard_gridMove:
  "wf_board b \<Longrightarrow> gridMove b m \<Longrightarrow> \<exists>b'. updateBoard b m = Inr b' \<and> wf_board b'"
  using updateBoard_ok [of b m] by (auto simp: gridMove_def)

lemma shuffleLoop_perm:
  "k < length xs \<Longrightarrow>
   set (fst (shuffleLoop k xs g)) = set xs \<and> length (fst (shuffleLoop k xs g)) = length xs"
proof (induction k arbitrary: xs g)
  case 0
  show ?case by simp
next
  case (Suc k)
  let ?j = "shd g mod (Suc k + 1)"
  let ?xs = "xs[Suc k := xs ! ?j, ?j := xs ! Suc k]"
  have "?j < Suc k + 1" by (rule mod_less_divisor) simp
  with Suc.prems have j: "?j < length xs" by linarith
  from Suc.prems j have "set ?xs = set xs" by (rule set_swap)
  moreover have "length ?xs = length xs" by simp
  moreover from Suc.prems have "k < length ?xs" by simp
  from Suc.IH [OF this, of "stl g"]
  have "set (fst (shuffleLoop k ?xs (stl g))) = set ?xs \<and>
        length (fst (shuffleLoop k ?xs (stl g))) = length ?xs" .
  ultimately show ?case
    by (simp add: randomBelow_def Let_def)
qed

lemma shuffle_perm:
  "set (fst (shuffle xs g)) = set xs \<and> length (fst (shuffle xs g)) = length xs"
proof (cases xs)
  case Nil
  then show ?thesis by (simp add: shuffle_def)
next
  case (Cons x xs')
  then have "length xs - 1 < length xs" by simp
  from shuffleLoop_perm [OF this] show ?thesis by (simp add: shuffle_def)
qed

lemma isNum_not_inf [simp]: "\<not> isNum NegInfinity" "\<not> isNum Infinity" "isNum (Num n)"
  by (simp_all add: isNum_def)

lemma isNum_E: "isNum v \<Longrightarrow> \<exists>n. v = Num n"
  by (cases v) simp_all

lemma maxLoop_ok:
  assumes child: "\<And>b' t' g'. wf_board b' \<Longrightarrow>
            \<exists>res g''. minimax b' nd False t' p g' = Inr (res, g'') \<and> isNum (score res)"
    and wf: "wf_board b"
  shows "\<forall>m\<in>set moves. gridMove b m \<Longrightarrow> set moves \<subseteq> S \<Longrightarrow>
         bestVal = NegInfinity \<and> bestMv = None \<or> isNum bestVal \<and> bestMv \<in> Some ` S \<Longrightarrow>
         \<exists>res g'. maxLoop b nd t p moves bestVal bestMv g = Inr (res, g') \<and>
           (moves = [] \<and> score res = bestVal \<and> move res = bestMv \<or>
            isNum (score res) \<and> move res \<in> Some ` S)"
proof (induction moves arbitrary: bestVal bestMv g)
  case Nil
  then show ?case by simp
next
  case (Cons mv rest)
  from Cons.prems(1) wf obtain b' where b': "updateBoard b mv = Inr b'" "wf_board b'"
    using updateBoard_gridMove [of b mv] by auto
  from child [OF b'(2)] obtain res g1 where
    r: "minimax b' nd False (if t = Red then Black else Red) p g = Inr (res, g1)" "isNum (score res)"
    by blast
  let ?bv = "if num_less bestVal (score res) then score res else bestVal"
  let ?bm = "if num_less bestVal (score res) then Some mv else bestMv"
  have step: "maxLoop b nd t p (mv # rest) bestVal bestMv g = maxLoop b nd t p rest ?bv ?bm g1"
    using b' r by (simp add: Let_def)
  from r(2) obtain n where n: "score res = Num n" by (auto dest: isNum_E)
  have inv: "isNum ?bv \<and> ?bm \<in> Some ` S"
    using Cons.prems(2,3) n by (cases bestVal) auto
  from Cons.prems have "\<forall>m\<in>set rest. gridMove b m" "set rest \<subseteq> S" by auto
  from Cons.IH [OF this, of ?bv ?bm g1] inv obtain res' g' where
    "maxLoop b nd t p rest ?bv ?bm g1 = Inr (res', g')"
    "rest = [] \<and> score res' = ?bv \<and> move res' = ?bm \<or> isNum (score res') \<and> move res' \<in> Some ` S"
    by blast
  with inv show ?case
    unfolding step by auto
qed

lemma minLoop_ok:
  assumes child: "\<And>b' t' g'. wf_board b' \<Longrightarrow>
            \<exists>res g''. minimax b' nd True t' p g' = Inr (res, g'') \<and> isNum (score res)"
    and wf: "wf_board b"
  shows "\<forall>m\<in>set moves. gridMove b m \<Longrightarrow> set moves \<subseteq> S \<Longrightarrow>
         bestVal = Infinity \<and> bestMv = None \<or> isNum bestVal \<and> bestMv \<in> Some ` S \<Longrightarrow>
         \<exists>res g'. minLoop b nd t p moves bestVal bestMv g = Inr (res, g') \<and>
           (moves = [] \<and> score res = bestVal \<and> move res = bestMv \<or>
            isNum (score res) \<and> move res \<in> Some ` S)"
proof (induction moves arbitrary: bestVal bestMv g)
  case Nil
  then show ?case by simp
next
  case (Cons mv rest)
  from Cons.prems(1) wf obtain b' where b': "updateBoard b mv = Inr b'" "wf_board b'"
    using updateBoard_gridMove [of b mv] by auto
  from child [OF b'(2)] obtain res g1 where
    r: "minimax b' nd True (if t = Red then Black else Red) p g = Inr (res, g1)" "isNum (score res)"
    by blast
  let ?bv = "if num_less (score res) bestVal then score res else bestVal"
  let ?bm = "if num_less (score res) bestVal then Some mv else bestMv"
  have step: "minLoop b nd t p (mv # rest) bestVal bestMv g = minLoop b nd t p rest ?bv ?bm g1"
    using b' r by (simp add: Let_def)
  from r(2) obtain n where n: "score res = Num n" by (auto dest: isNum_E)
  have inv: "isNum ?bv \<and> ?bm \<in> Some ` S"
    using Cons.prems(2,3) n by (cases bestVal) auto
  from Cons.prems have "\<forall>m\<in>set rest. gridMove b m" "set rest \<subseteq> S" by auto
  from Cons.IH [OF this, of ?bv ?bm g1] inv obtain res' g' where
    "minLoop b nd t p rest ?bv ?bm g1 = Inr (res', g')"
    "rest = [] \<and> score res' = ?bv \<and> move res' = ?bm \<or> isNum (score res') \<and> move res' \<in> Some ` S"
    by blast
  with inv show ?case
    unfolding step by auto
qed

lemma minimax_leaf:
  "depth = 0 \<or> getAllowedMovesForBoard b t = [] \<Longrightarrow>
   minimax b depth isMax t p g = Inr (\<lparr>score = Num (evaluateBoard b p), move = None\<rparr>, g)"
  by (subst minimax.simps) auto

lemma minimax_ok:
  "wf_board b \<Longrightarrow>
   \<exists>res g'. minimax b depth isMax t p g = Inr (res, g') \<and> isNum (score res) \<and>
     (if depth = 0 \<or> getAllowedMovesForBoard b t = [] then move res = None
      else move res \<in> Some ` set (getAllowedMovesForBoard b t))"
proof (induction depth arbitrary: b isMax t g)
  case 0
  then show ?case by (simp add: minimax_leaf)
next
  case (Suc nd)
  let ?moves = "getAllowedMovesForBoard b t"
  show ?case
  proof (cases "?moves = []")
    case True
    then show ?thesis by (simp add: minimax_leaf)
  next
    case False
    let ?sm = "fst (shuffle ?moves g)" and ?g = "snd (shuffle ?moves g)"
    from shuffle_perm [of ?moves g] False have sm: "set ?sm = set ?moves" "?sm \<noteq> []"
      by auto
    then have grid: "\<forall>m\<in>set ?sm. gridMove b m"
      using allowed_gridMove [OF Suc.prems] by auto
    have child: "\<exists>res g''. minimax b' nd f t' p g' = Inr (res, g'') \<and> isNum (score res)"
      if "wf_board b'" for b' t' g' f
      using Suc.IH [OF that, of f t' g'] by blast
    have "\<exists>res g'. (if isMax then maxLoop b nd t p ?sm NegInfinity None ?g
                      else minLoop b nd t p ?sm Infinity None ?g) = Inr (res, g') \<and>
             isNum (score res) \<and> move res \<in> Some ` set ?moves"
    proof (cases isMax)
      case True
      from maxLoop_ok [OF child Suc.prems grid, of "set ?moves" NegInfinity None t ?g] sm True
      show ?thesis by auto
    next
      case False
      from minLoop_ok [OF child Suc.prems grid, of "set ?moves" Infinity None t ?g] sm False
      show ?thesis by auto
    qed
    moreover have "minimax b (Suc nd) isMax t p g =
        (if isMax then maxLoop b nd t p ?sm NegInfinity None ?g
         else minLoop b nd t p ?sm Infinity None ?g)"
      using False by (subst minimax.simps) (simp add: Let_def split: prod.splits)
    ultimately show ?thesis
      using False by simp
  qed
qed

text \<open>
  C3: for every board, colour and positive depth, whatever the random draws, the root
  search returns a result (no exception), the result is \<open>null\<close> exactly when
  \<open>getAllowedMovesForBoard\<close> returns no move, and a move it returns is one of the moves
  of \<open>getAllowedMovesForBoard\<close>.
\<close>

theorem bestMove_none_iff_no_moves:
  assumes "wf_board b" and "0 < depth"
  shows "\<exists>r. bestMove b t depth g = Inr r \<and>
           (r = None \<longleftrightarrow> getAllowedMovesForBoard b t = []) \<and>
           (\<forall>m. r = Some m \<longrightarrow> m \<in> set (getAllowedMovesForBoard b t))"
proof -
  from minimax_ok [OF assms(1), of depth True t t g] assms(2) obtain res g' where
    "minimax b depth True t t g = Inr (res, g')"
    "if getAllowedMovesForBoard b t = [] then move res = None
     else move res \<in> Some ` set (getAllowedMovesForBoard b t)"
    by auto
  then show ?thesis
    by (auto simp: bestMove_def cloneBoard_id split: if_splits)
qed

text \<open>
  C10: with depth 0 the search is at a leaf at once: \<open>minimax\<close> returns the static
  evaluation and no move, and so does \<open>bestMove\<close>, whether or not the side to move has
  legal moves.
\<close>

theorem depth_zero_returns_no_move:
  "minimax b 0 isMax t p g = Inr (\<lparr>score = Num (evaluateBoard b p), move = None\<rparr>, g) \<and>
   bestMove b t 0 g = Inr None"
  by (simp add: minimax_leaf bestMove_def cloneBoard_id)

theorem depth_zero_returns_no_move_witness:
  "getAllowedMovesForBoard initialBoard Red \<noteq> [] \<and>
   bestMove initialBoard Red 0 (sconst 0) = Inr None"
  using depth_zero_returns_no_move [of initialBoard True Red Red "sconst 0"]
  by (simp add: allowed_initialBoard)

lemma best_doubleJumpBoard: "bestMove doubleJumpBoard Red 1 g = Inr (Some doubleJump)"
  by code_simp

theorem bestMove_none_iff_no_moves_witness:
  "wf_board doubleJumpBoard \<and> (0::nat) < 1 \<and>
   bestMove doubleJumpBoard Red 1 (sconst 0) = Inr (Some doubleJump) \<and>
   getAllowedMovesForBoard doubleJumpBoard Red \<noteq> [] \<and>
   doubleJump \<in> set (getAllowedMovesForBoard doubleJumpBoard Red)"
proof -
  from bestMove_none_iff_no_moves [OF wf_doubleJumpBoard, of 1 Red "sconst 0"]
  obtain r where "bestMove doubleJumpBoard Red 1 (sconst 0) = Inr r"
    "r = None \<longleftrightarrow> getAllowedMovesForBoard doubleJumpBoard Red = []"
    "\<forall>m. r = Some m \<longrightarrow> m \<in> set (getAllowedMovesForBoard doubleJumpBoard Red)"
    by auto
  with best_doubleJumpBoard [of "sconst 0"] show ?thesis
    by (auto simp: wf_doubleJumpBoard)
qed

subsection \<open>The store: what cloneBoard and updateBoard write\<close>

lemma unchanged_refl [simp]: "unchanged s s"
  by (simp add: unchanged_def)

lemma unchanged_trans: "unchanged s s1 \<Longrightarrow> unchanged s1 s2 \<Longrightarrow> unchanged s s2"
  by (auto simp: unchanged_def)

lemma unchanged_lengths:
  "unchanged s s' \<Longrightarrow>
   length (pieceObjs s) \<le> length (pieceObjs s') \<and> length (rowObjs s) \<le> length (rowObjs s') \<and>
   length (boardObjs s) \<le> length (boardObjs s')"
  by (auto simp: unchanged_def prefix_def)

lemma prefix_nth: "prefix xs ys \<Longrightarrow> i < length xs \<Longrightarrow> ys ! i = xs ! i"
  by (auto simp: prefix_def nth_append)

lemma prefix_update: "prefix xs ys \<Longrightarrow> length xs \<le> i \<Longrightarrow> prefix xs (ys[i := v])"
  by (auto simp: prefix_def list_update_append)

lemma unchanged_allocPiece: "unchanged s (fst (allocPiece s p))"
  by (simp add: unchanged_def allocPiece_def)

lemma unchanged_allocRow: "unchanged s (fst (allocRow s cells))"
  by (simp add: unchanged_def allocRow_def)

lemma unchanged_allocBoard: "unchanged s (fst (allocBoard s rows))"
  by (simp add: unchanged_def allocBoard_def)

lemma cloneCells_spec:
  "list_all (validCell s) cells \<Longrightarrow> cloneCells s cells = (s', cells') \<Longrightarrow>
   rowObjs s' = rowObjs s \<and> boardObjs s' = boardObjs s \<and> prefix (pieceObjs s) (pieceObjs s') \<and>
   list_all2 (copiedCell s s') cells cells'"
proof (induction cells arbitrary: s s' cells')
  case Nil
  then show ?case by simp
next
  case (Cons c cells)
  show ?case
  proof (cases c)
    case None
    with Cons.prems obtain cs where cs: "cloneCells s cells = (s', cs)" "cells' = None # cs"
      by (auto split: prod.splits)
    have "copiedCell s s' c None" using None by (simp add: copiedCell_def)
    with Cons.IH [OF _ cs(1)] Cons.prems(1) cs(2) show ?thesis
      by simp
  next
    case (Some a)
    let ?s1 = "fst (allocPiece s (pieceObjs s ! a))"
    let ?a' = "length (pieceObjs s)"
    from Cons.prems Some obtain cs where cs: "cloneCells ?s1 cells = (s', cs)" "cells' = Some ?a' # cs"
      by (auto simp: allocPiece_def split: prod.splits)
    have s1: "pieceObjs ?s1 = pieceObjs s @ [pieceObjs s ! a]" "rowObjs ?s1 = rowObjs s"
        "boardObjs ?s1 = boardObjs s"
      by (simp_all add: allocPiece_def)
    from Cons.prems(1) have v1: "list_all (validCell ?s1) cells"
      by (auto simp: list_all_iff validCell_def s1 split: option.splits)
    from Cons.IH [OF v1 cs(1)] have ih: "rowObjs s' = rowObjs s" "boardObjs s' = boardObjs s"
        "prefix (pieceObjs ?s1) (pieceObjs s')" "list_all2 (copiedCell ?s1 s') cells cs"
      by (simp_all add: s1)
    from ih(3) have p: "prefix (pieceObjs s) (pieceObjs s')"
      by (auto simp: s1 prefix_def)
    from ih(3) have a': "?a' < length (pieceObjs s')" "pieceObjs s' ! ?a' = pieceObjs s ! a"
      by (auto simp: s1 prefix_def nth_append)
    have "copiedCell s s' x y" if "copiedCell ?s1 s' x y" "validCell s x" for x y
      using that by (auto simp: copiedCell_def validCell_def s1 nth_append split: option.splits)
    with ih(4) Cons.prems(1) have "list_all2 (copiedCell s s') cells cs"
      by (auto simp: list_all2_conv_all_nth list_all_length)
    moreover from a' Some have "copiedCell s s' c (Some ?a')"
      by (simp add: copiedCell_def)
    ultimately show ?thesis
      using ih p cs(2) by simp
  qed
qed

lemma validRow_mono: "unchanged s s' \<Longrightarrow> validRow s r \<Longrightarrow> validRow s' r"
proof -
  assume u: "unchanged s s'" and v: "validRow s r"
  then have "rowObjs s' ! r = rowObjs s ! r"
    by (simp add: unchanged_def validRow_def prefix_nth)
  with u v unchanged_lengths [OF u] show ?thesis
    by (auto simp: validRow_def validCell_def list_all_iff split: option.splits)
qed

lemma readRow_unchanged: "unchanged s s' \<Longrightarrow> validRow s r \<Longrightarrow> readRow s' r = readRow s r"
proof -
  assume u: "unchanged s s'" and v: "validRow s r"
  then have r: "rowObjs s' ! r = rowObjs s ! r"
    by (simp add: unchanged_def validRow_def prefix_nth)
  have "(case c of None \<Rightarrow> None | Some a \<Rightarrow> Some (pieceObjs s' ! a)) =
        (case c of None \<Rightarrow> None | Some a \<Rightarrow> Some (pieceObjs s ! a))"
    if "c \<in> set (rowObjs s ! r)" for c
    using that u v
    by (auto simp: validRow_def validCell_def list_all_iff unchanged_def prefix_nth
             split: option.splits)
  then show ?thesis
    by (simp add: readRow_def r)
qed

lemma readBoard_unchanged:
  "unchanged s s' \<Longrightarrow> validBoard s b \<Longrightarrow> readBoard s' b = readBoard s b"
proof -
  assume u: "unchanged s s'" and v: "validBoard s b"
  then have "boardObjs s' ! b = boardObjs s ! b"
    by (simp add: unchanged_def validBoard_def prefix_nth)
  with u v show ?thesis
    by (auto simp: readBoard_def validBoard_def list_all_iff readRow_unchanged)
qed

lemma list_all2_map_eq: "list_all2 (\<lambda>x y. f x = g y) xs ys \<Longrightarrow> map f xs = map g ys"
  by (induction xs ys rule: list_all2_induct) auto

lemma freshRow_mono:
  "unchanged s s1 \<Longrightarrow> freshRow s1 s' r \<Longrightarrow> freshRow s s' r"
proof -
  assume u: "unchanged s s1" and f: "freshRow s1 s' r"
  have "freshCell s c" if "freshCell s1 c" for c
    using that unchanged_lengths [OF u] by (auto simp: freshCell_def split: option.splits)
  with f unchanged_lengths [OF u] show ?thesis
    by (auto simp: freshRow_def list_all_iff)
qed

lemma cloneRows_spec:
  "list_all (validRow s) rs \<Longrightarrow> cloneRows s rs = (s', rs') \<Longrightarrow>
   boardObjs s' = boardObjs s \<and> unchanged s s' \<and> length rs' = length rs \<and>
   list_all (freshRow s s') rs' \<and> list_all (validRow s') rs' \<and> distinct rs' \<and>
   map (readRow s') rs' = map (readRow s) rs"
proof (induction rs arbitrary: s s' rs')
  case Nil
  then show ?case by simp
next
  case (Cons r rs)
  obtain s1 cells where c: "cloneCells s (rowObjs s ! r) = (s1, cells)"
    by (cases "cloneCells s (rowObjs s ! r)")
  let ?s2 = "s1\<lparr>rowObjs := rowObjs s1 @ [cells]\<rparr>"
  let ?r' = "length (rowObjs s1)"
  from Cons.prems(2) c obtain rows where
    r: "cloneRows ?s2 rs = (s', rows)" "rs' = ?r' # rows"
    by (auto simp: allocRow_def split: prod.splits)
  from Cons.prems(1) have vr: "validRow s r" and vrs: "list_all (validRow s) rs"
    by simp_all
  from vr have "list_all (validCell s) (rowObjs s ! r)" by (simp add: validRow_def)
  from cloneCells_spec [OF this c] have s1: "rowObjs s1 = rowObjs s" "boardObjs s1 = boardObjs s"
      "prefix (pieceObjs s) (pieceObjs s1)" "list_all2 (copiedCell s s1) (rowObjs s ! r) cells"
    by simp_all
  then have u2: "unchanged s ?s2"
    by (simp add: unchanged_def)
  from vrs have "list_all (validRow ?s2) rs"
    by (auto simp: list_all_iff intro: validRow_mono [OF u2])
  from Cons.IH [OF this r(1)] have ih: "boardObjs s' = boardObjs s" "unchanged ?s2 s'"
      "length rows = length rs" "list_all (freshRow ?s2 s') rows" "list_all (validRow s') rows"
      "distinct rows" "map (readRow s') rows = map (readRow ?s2) rs"
    by (simp_all add: s1)
  from u2 ih(2) have u: "unchanged s s'" by (rule unchanged_trans)
  from ih(2) have row': "rowObjs s' ! ?r' = cells" "?r' < length (rowObjs s')"
    by (auto simp: unchanged_def prefix_def nth_append)
  from ih(2) have p1: "prefix (pieceObjs s1) (pieceObjs s')"
    by (simp add: unchanged_def)
  have cell: "freshCell s c' \<and> validCell s' c' \<and>
      (case c' of None \<Rightarrow> None | Some a \<Rightarrow> Some (pieceObjs s' ! a)) =
      (case c of None \<Rightarrow> None | Some a \<Rightarrow> Some (pieceObjs s ! a))"
    if "copiedCell s s1 c c'" for c c'
  proof (cases c)
    case None
    with that show ?thesis by (simp add: copiedCell_def freshCell_def validCell_def)
  next
    case (Some a)
    with that obtain a' where a': "c' = Some a'" "length (pieceObjs s) \<le> a'"
        "a' < length (pieceObjs s1)" "pieceObjs s1 ! a' = pieceObjs s ! a"
      by (auto simp: copiedCell_def)
    from prefix_nth [OF p1 a'(3)] a' have "pieceObjs s' ! a' = pieceObjs s ! a" by simp
    moreover from p1 a'(3) have "a' < length (pieceObjs s')"
      by (auto simp: prefix_def)
    ultimately show ?thesis
      using a' Some by (simp add: freshCell_def validCell_def)
  qed
  from s1(4) have len: "length cells = length (rowObjs s ! r)"
    by (simp add: list_all2_lengthD)
  from s1(4) cell have fc: "list_all (freshCell s) cells" and vc: "list_all (validCell s') cells"
    by (auto simp: list_all_length list_all2_conv_all_nth)
  from s1(4) cell have "list_all2 (\<lambda>c c'.
      (case c of None \<Rightarrow> None | Some a \<Rightarrow> Some (pieceObjs s ! a)) =
      (case c' of None \<Rightarrow> None | Some a \<Rightarrow> Some (pieceObjs s' ! a))) (rowObjs s ! r) cells"
    by (auto simp: list_all2_conv_all_nth)
  then have rd: "readRow s' ?r' = readRow s r"
    unfolding readRow_def row' by (rule list_all2_map_eq [symmetric])
  have fr: "freshRow s s' ?r'"
    using fc row' by (simp add: freshRow_def s1)
  have vr': "validRow s' ?r'"
    using vc len vr row' by (simp add: validRow_def s1)
  from ih(4) have "?r' \<notin> set rows"
    by (auto simp: list_all_iff freshRow_def)
  moreover from ih(4) have "list_all (freshRow s s') rows"
    by (auto simp: list_all_iff intro: freshRow_mono [OF u2])
  moreover from vrs have "map (readRow ?s2) rs = map (readRow s) rs"
    by (auto simp: list_all_iff intro: readRow_unchanged [OF u2])
  ultimately show ?case
    using ih u rd fr vr' r(2) by simp
qed

lemma cloneBoardS_spec:
  assumes v: "validBoard s b" and c: "cloneBoardS s b = (s', nb)"
  shows "unchanged s s' \<and> freshBoard s s' nb \<and> validBoard s' nb \<and>
         distinct (boardObjs s' ! nb) \<and> readBoard s' nb = readBoard s b"
proof -
  obtain s1 rows where r: "cloneRows s (boardObjs s ! b) = (s1, rows)"
    by (cases "cloneRows s (boardObjs s ! b)")
  with c have s': "s' = s1\<lparr>boardObjs := boardObjs s1 @ [rows]\<rparr>" "nb = length (boardObjs s1)"
    by (simp_all add: cloneBoardS_def allocBoard_def)
  from v have "list_all (validRow s) (boardObjs s ! b)" by (simp add: validBoard_def)
  from cloneRows_spec [OF this r] have 1: "boardObjs s1 = boardObjs s" "unchanged s s1"
      "length rows = length (boardObjs s ! b)" "list_all (freshRow s s1) rows"
      "list_all (validRow s1) rows" "distinct rows"
      "map (readRow s1) rows = map (readRow s) (boardObjs s ! b)"
    by simp_all
  have rs: "rowObjs s' = rowObjs s1" "pieceObjs s' = pieceObjs s1" "boardObjs s' ! nb = rows"
    by (simp_all add: s')
  then have vc: "validCell s' = validCell s1"
    by (auto simp: fun_eq_iff validCell_def split: option.splits)
  have eq: "freshRow s s' = freshRow s s1" "validRow s' = validRow s1" "readRow s' = readRow s1"
    unfolding freshRow_def validRow_def readRow_def fun_eq_iff vc rs by simp_all
  from 1 have "unchanged s s'"
    by (auto simp: unchanged_def s' prefix_def)
  moreover from 1 have "freshBoard s s' nb"
    by (simp add: freshBoard_def rs eq) (simp add: s')
  moreover from 1 v have "validBoard s' nb"
    by (simp add: validBoard_def rs eq) (simp add: s')
  moreover from 1 have "readBoard s' nb = readBoard s b"
    by (simp add: readBoard_def rs eq)
  ultimately show ?thesis
    using 1 rs by simp
qed

lemma readRow_deref: "readRow s r = map (deref s) (rowObjs s ! r)"
  by (simp add: readRow_def deref_def)

lemma wf_readBoard: "validBoard s b \<Longrightarrow> wf_board (readBoard s b)"
  by (auto simp: validBoard_def wf_board_def readBoard_def readRow_def validRow_def list_all_iff)

lemma cellAt_readBoard:
  assumes "validBoard s b" and "0 \<le> row pos" "row pos < 8"
  shows "cellAt (readBoard s b) pos = deref s (readCell s b pos)"
proof -
  let ?i = "nat (row pos)"
  from assms have i: "?i < length (boardObjs s ! b)" by (simp add: validBoard_def)
  with assms(1) have "validRow s (boardObjs s ! b ! ?i)"
    by (simp add: validBoard_def list_all_length)
  then have len: "length (rowObjs s ! (boardObjs s ! b ! ?i)) = 8" by (simp add: validRow_def)
  show ?thesis
  proof (cases "0 \<le> col pos \<and> col pos < 8")
    case True
    then have "nat (col pos) < 8" by linarith
    with True i len assms show ?thesis
      by (simp add: cellAt_def readBoard_def readRow_deref readCell_def)
  next
    case False
    with i len assms show ?thesis
      by (auto simp: cellAt_def readBoard_def readRow_deref readCell_def deref_def)
  qed
qed

lemma ownBoard_row:
  assumes "ownBoard s0 s nb" and "i < 8"
  shows "length (rowObjs s0) \<le> boardObjs s ! nb ! i" and "boardObjs s ! nb ! i < length (rowObjs s)"
    and "length (rowObjs s ! (boardObjs s ! nb ! i)) = 8"
  using assms
  by (auto simp: ownBoard_def validBoard_def freshBoard_def freshRow_def validRow_def
        list_all_length)

lemma writeCell_own:
  assumes own: "ownBoard s0 s nb" and pos: "inBounds pos" and v: "validCell s v" "freshCell s0 v"
  shows "ownBoard s0 (writeCell s nb pos v) nb"
    and "readBoard (writeCell s nb pos v) nb = setCell (readBoard s nb) pos (deref s v)"
    and "pieceObjs (writeCell s nb pos v) = pieceObjs s"
proof -
  let ?i = "nat (row pos)" and ?c = "nat (col pos)"
  let ?rows = "boardObjs s ! nb"
  let ?r = "?rows ! ?i"
  let ?s' = "writeCell s nb pos v"
  from pos have i: "?i < 8" and c: "?c < 8" and nn: "0 \<le> row pos" "0 \<le> col pos"
    by (auto simp: inBounds_def)
  from own have vb: "validBoard s nb" and d: "distinct ?rows" and u: "unchanged s0 s"
    and fb: "freshBoard s0 s nb"
    by (simp_all add: ownBoard_def)
  from vb have len: "length ?rows = 8" by (simp add: validBoard_def)
  note r = ownBoard_row [OF own i]
  have s': "rowObjs ?s' = (rowObjs s)[?r := (rowObjs s ! ?r)[?c := v]]"
      "pieceObjs ?s' = pieceObjs s" "boardObjs ?s' = boardObjs s"
    by (simp_all add: writeCell_def Let_def)
  show "pieceObjs ?s' = pieceObjs s" by (rule s')
  have row_same: "rowObjs ?s' ! ?r = (rowObjs s ! ?r)[?c := v]"
    using r by (simp add: s')
  have row_other: "rowObjs ?s' ! q = rowObjs s ! q" if "q \<noteq> ?r" for q
    using that by (simp add: s')
  have vc: "validCell ?s' = validCell s" and dr: "deref ?s' = deref s"
    by (auto simp: fun_eq_iff validCell_def deref_def s' split: option.splits)
  have u': "unchanged s0 ?s'"
    using u r(1) by (simp add: unchanged_def s' prefix_update)
  have vrow: "validRow ?s' q" if "validRow s q" for q
  proof (cases "q = ?r")
    case True
    with that v(1) show ?thesis
      by (auto simp: validRow_def s' vc list_all_iff dest: set_update_subset_insert [THEN subsetD])
  next
    case False
    with that show ?thesis
      by (simp add: validRow_def vc row_other) (simp add: s')
  qed
  have frow: "freshRow s0 ?s' q" if "freshRow s0 s q" for q
  proof (cases "q = ?r")
    case True
    with that v(2) r show ?thesis
      by (auto simp: freshRow_def row_same list_all_iff dest: set_update_subset_insert [THEN subsetD])
  next
    case False
    with that show ?thesis
      by (simp add: freshRow_def row_other)
  qed
  from vb have vb': "validBoard ?s' nb"
    by (auto simp: validBoard_def s' list_all_iff intro: vrow)
  from fb have fb': "freshBoard s0 ?s' nb"
    by (auto simp: freshBoard_def s' list_all_iff intro: frow)
  from u' vb' d fb' show "ownBoard s0 ?s' nb"
    by (simp add: ownBoard_def s')
  have "map (readRow ?s') ?rows = (map (readRow s) ?rows)[?i := (readRow s ?r)[?c := deref s v]]"
  proof (rule nth_equalityI)
    show "length (map (readRow ?s') ?rows) =
        length ((map (readRow s) ?rows)[?i := (readRow s ?r)[?c := deref s v]])"
      by simp
  next
    fix k assume "k < length (map (readRow ?s') ?rows)"
    then have k: "k < length ?rows" by simp
    show "map (readRow ?s') ?rows ! k =
        (map (readRow s) ?rows)[?i := (readRow s ?r)[?c := deref s v]] ! k"
    proof (cases "k = ?i")
      case True
      with k show ?thesis
        by (simp add: readRow_deref row_same dr map_update)
    next
      case False
      with k i len d have "?rows ! k \<noteq> ?r"
        by (simp add: nth_eq_iff_index_eq)
      with k False show ?thesis
        by (simp add: readRow_deref row_other dr)
    qed
  qed
  moreover have "length (readRow s ?r) = 8"
    using r by (simp add: readRow_deref)
  ultimately show "readBoard ?s' nb = setCell (readBoard s nb) pos (deref s v)"
    using i c nn len by (simp add: readBoard_def s' setCell_def)
qed

lemma clearCapturesS_refines:
  "ownBoard s0 s nb \<Longrightarrow> clearCapturesS s nb caps = (s', r) \<Longrightarrow>
   pieceObjs s' = pieceObjs s \<and> ownBoard s0 s' nb \<and>
   (case r of
      Inl e \<Rightarrow> clearCaptures (readBoard s nb) caps = Inl e
    | Inr u \<Rightarrow> clearCaptures (readBoard s nb) caps = Inr (readBoard s' nb))"
proof (induction caps arbitrary: s)
  case Nil
  then show ?case by auto
next
  case (Cons cap caps)
  show ?case
  proof (cases "inBounds cap")
    case True
    have v: "validCell s None" "freshCell s0 None"
      by (simp_all add: validCell_def freshCell_def)
    note w = writeCell_own [OF Cons.prems(1) True v]
    from Cons.prems(2) True have "clearCapturesS (writeCell s nb cap None) nb caps = (s', r)"
      by (simp add: inBounds_def)
    from Cons.IH [OF w(1) this] w(2,3) True show ?thesis
      by (auto simp: inBounds_def deref_def split: sum.splits)
  next
    case False
    with Cons.prems show ?thesis
      by (auto simp: inBounds_def split: if_splits)
  qed
qed

lemma prefix_nthI:
  "length xs \<le> length ys \<Longrightarrow> (\<And>i. i < length xs \<Longrightarrow> ys ! i = xs ! i) \<Longrightarrow> prefix xs ys"
proof -
  assume l: "length xs \<le> length ys" and n: "\<And>i. i < length xs \<Longrightarrow> ys ! i = xs ! i"
  then have "take (length xs) ys = xs"
    by (intro nth_equalityI) simp_all
  then have "ys = xs @ drop (length xs) ys"
    by (metis append_take_drop_id)
  then show ?thesis
    by (metis prefixI)
qed

lemma ownBoard_pieces:
  assumes own: "ownBoard s0 s nb"
    and same: "rowObjs s' = rowObjs s" "boardObjs s' = boardObjs s"
    and len: "length (pieceObjs s) \<le> length (pieceObjs s')"
    and old: "\<And>a. a < length (pieceObjs s) \<Longrightarrow> pieceObjs s' ! a = pieceObjs s ! a"
  shows "ownBoard s0 s' nb" and "readBoard s' nb = readBoard s nb"
proof -
  from own have u: "unchanged s0 s" and vb: "validBoard s nb" and d: "distinct (boardObjs s ! nb)"
    and fb: "freshBoard s0 s nb"
    by (simp_all add: ownBoard_def)
  have "prefix (pieceObjs s0) (pieceObjs s')"
  proof (rule prefix_nthI)
    from u len show "length (pieceObjs s0) \<le> length (pieceObjs s')"
      using unchanged_lengths [OF u] by simp
  next
    fix i assume i: "i < length (pieceObjs s0)"
    with unchanged_lengths [OF u] have "i < length (pieceObjs s)" by simp
    with old [of i] u i show "pieceObjs s' ! i = pieceObjs s0 ! i"
      by (simp add: unchanged_def prefix_nth)
  qed
  with u have u': "unchanged s0 s'"
    by (simp add: unchanged_def same)
  have vc: "validCell s' c" if "validCell s c" for c
    using that len by (auto simp: validCell_def split: option.splits)
  have vr: "validRow s' r" if "validRow s r" for r
    using that by (auto simp: validRow_def same list_all_iff intro: vc)
  from vb have vb': "validBoard s' nb"
    by (auto simp: validBoard_def same list_all_iff intro: vr)
  have "freshRow s0 s' = freshRow s0 s"
    by (simp add: fun_eq_iff freshRow_def same)
  with fb have fb': "freshBoard s0 s' nb"
    by (simp add: freshBoard_def same)
  from u' vb' d fb' show "ownBoard s0 s' nb"
    by (simp add: ownBoard_def same)
  have "readRow s' r = readRow s r" if "validRow s r" for r
    using that old
    by (auto simp: readRow_def validRow_def validCell_def same list_all_iff split: option.splits)
  with vb show "readBoard s' nb = readBoard s nb"
    by (auto simp: readBoard_def validBoard_def same list_all_iff)
qed

lemma readCell_valid:
  assumes "validBoard s nb" and "inBounds pos" and "readCell s nb pos = Some a"
  shows "a < length (pieceObjs s)"
proof -
  let ?i = "nat (row pos)" and ?c = "nat (col pos)"
  from assms(2) have i: "?i < 8" and c: "?c < 8" by (auto simp: inBounds_def)
  with assms(1) have "validRow s (boardObjs s ! nb ! ?i)"
    by (simp add: validBoard_def list_all_length)
  with c have "validCell s (rowObjs s ! (boardObjs s ! nb ! ?i) ! ?c)"
    by (simp add: validRow_def list_all_length)
  with assms(2,3) show ?thesis
    by (simp add: readCell_def inBounds_def validCell_def)
qed

lemma updateBoardS_refines:
  assumes v: "validBoard s b" and ub: "updateBoardS s b m = (s', r)"
  shows "unchanged s s' \<and>
         (case r of
            Inl e \<Rightarrow> updateBoard (readBoard s b) m = Inl e
          | Inr nb \<Rightarrow> updateBoard (readBoard s b) m = Inr (readBoard s' nb) \<and> freshBoard s s' nb)"
proof -
  let ?B = "readBoard s b"
  obtain s1 nb where c: "cloneBoardS s b = (s1, nb)" by (cases "cloneBoardS s b")
  from cloneBoardS_spec [OF v c] have own1: "ownBoard s s1 nb" and rb1: "readBoard s1 nb = ?B"
    by (simp_all add: ownBoard_def)
  then have u1: "unchanged s s1" and vb1: "validBoard s1 nb" and fb1: "freshBoard s s1 nb"
    by (simp_all add: ownBoard_def)
  show ?thesis
  proof (cases "row (from_pos m) < 0 \<or> row (from_pos m) \<ge> 8")
    case True
    with ub c u1 show ?thesis
      by (auto simp: updateBoardS_def updateBoard_def Let_def)
  next
    case rowok: False
    then have cell: "cellAt ?B (from_pos m) = deref s1 (readCell s1 nb (from_pos m))"
      using cellAt_readBoard [OF vb1, of "from_pos m"] rb1 by simp
    show ?thesis
    proof (cases "readCell s1 nb (from_pos m)")
      case None
      with ub c rowok cell u1 fb1 rb1 show ?thesis
        by (auto simp: updateBoardS_def updateBoard_def Let_def cloneBoard_id deref_def)
    next
      case (Some pa)
      let ?piece = "pieceObjs s1 ! pa"
      from Some rowok have fin: "inBounds (from_pos m)"
        by (auto simp: readCell_def inBounds_def split: if_splits)
      from readCell_valid [OF vb1 fin Some] have pa: "pa < length (pieceObjs s1)" .
      from cell Some have pc: "cellAt ?B (from_pos m) = Some ?piece" by (simp add: deref_def)
      let ?s2 = "writeCell s1 nb (from_pos m) None"
      have "validCell s1 None" "freshCell s None" by (simp_all add: validCell_def freshCell_def)
      note w2 = writeCell_own [OF own1 fin this]
      from w2(2) rb1 have rb2: "readBoard ?s2 nb = setCell ?B (from_pos m) None"
        by (simp add: deref_def)
      obtain s3 r3 where cc: "clearCapturesS ?s2 nb (captures m) = (s3, r3)"
        by (cases "clearCapturesS ?s2 nb (captures m)")
      from clearCapturesS_refines [OF w2(1) cc, unfolded rb2] w2(3)
      have p3: "pieceObjs s3 = pieceObjs s1" and own3: "ownBoard s s3 nb"
        and r3: "case r3 of
                   Inl e \<Rightarrow> clearCaptures (setCell ?B (from_pos m) None) (captures m) = Inl e
                 | Inr u \<Rightarrow> clearCaptures (setCell ?B (from_pos m) None) (captures m)
                             = Inr (readBoard s3 nb)"
        by simp_all
      from own3 have u3: "unchanged s s3" by (simp add: ownBoard_def)
      have pure: "updateBoard ?B m =
          (case clearCaptures (setCell ?B (from_pos m) None) (captures m) of
             Inl e \<Rightarrow> Inl e
           | Inr nb2 \<Rightarrow>
               if path m = [] then Inl TypeError
               else if row (last (path m)) < 0 \<or> row (last (path m)) \<ge> 8 then Inl TypeError
               else if col (last (path m)) < 0 \<or> col (last (path m)) \<ge> 8 then Inl OutOfGrid
               else Inr (setCell nb2 (last (path m))
                          (Some (promoteIfNeeded ?piece (row (last (path m)))))))"
        using rowok pc
        by (simp add: updateBoard_def Let_def cloneBoard_id promoteIfNeeded_inline
              split: sum.splits)
      show ?thesis
      proof (cases r3)
        case (Inl e)
        with ub c rowok Some cc u3 r3 pure show ?thesis
          by (auto simp: updateBoardS_def Let_def)
      next
        case (Inr u)
        with r3 have cl: "clearCaptures (setCell ?B (from_pos m) None) (captures m)
            = Inr (readBoard s3 nb)"
          by simp
        show ?thesis
        proof (cases "path m = []")
          case True
          with ub c rowok Some cc Inr u3 cl pure show ?thesis
            by (auto simp: updateBoardS_def Let_def)
        next
          case pathok: False
          let ?fp = "last (path m)"
          let ?np = "length (pieceObjs s3)"
          let ?s4 = "s3\<lparr>pieceObjs := pieceObjs s3 @ [pieceObjs s3 ! pa]\<rparr>"
          let ?s5 = "if type (pieceObjs ?s4 ! ?np) = Man then
                       (if color (pieceObjs ?s4 ! ?np) = Red \<and> row ?fp = 0 then setType ?s4 ?np King
                        else if color (pieceObjs ?s4 ! ?np) = Black \<and> row ?fp = 7
                        then setType ?s4 ?np King else ?s4)
                     else ?s4"
          have s4: "pieceObjs ?s4 = pieceObjs s3 @ [?piece]" "rowObjs ?s4 = rowObjs s3"
              "boardObjs ?s4 = boardObjs s3"
            by (simp_all add: p3)
          define s5 where "s5 = ?s5"
          have s5: "pieceObjs s5 = pieceObjs s3 @ [promoteIfNeeded ?piece (row ?fp)]"
              "rowObjs s5 = rowObjs s3" "boardObjs s5 = boardObjs s3"
            unfolding s5_def
            by (cases "type ?piece"; auto simp: s4 setType_def promoteIfNeeded_def)+
          have own5: "ownBoard s s5 nb"
            by (rule ownBoard_pieces(1) [OF own3 s5(2,3)]) (simp_all add: s5(1) nth_append)
          have rb5: "readBoard s5 nb = readBoard s3 nb"
            by (rule ownBoard_pieces(2) [OF own3 s5(2,3)]) (simp_all add: s5(1) nth_append)
          have "updateBoardS s b m =
              (if row ?fp < 0 \<or> row ?fp \<ge> 8 then (s5, Inl TypeError)
               else if col ?fp < 0 \<or> col ?fp \<ge> 8 then (s5, Inl OutOfGrid)
               else (writeCell s5 nb ?fp (Some ?np), Inr nb))"
            unfolding s5_def using c rowok Some cc Inr pathok
            by (simp add: updateBoardS_def Let_def allocPiece_def split del: if_split)
          with ub have ub5: "(s', r) =
              (if row ?fp < 0 \<or> row ?fp \<ge> 8 then (s5, Inl TypeError)
               else if col ?fp < 0 \<or> col ?fp \<ge> 8 then (s5, Inl OutOfGrid)
               else (writeCell s5 nb ?fp (Some ?np), Inr nb))"
            by simp
          from own5 have u5: "unchanged s s5" by (simp add: ownBoard_def)
          show ?thesis
          proof (cases "inBounds ?fp")
            case False
            with ub5 u5 pure cl pathok show ?thesis
              by (auto simp: inBounds_def split: if_splits)
          next
            case True
            have "validCell s5 (Some ?np)" by (simp add: validCell_def s5)
            moreover from unchanged_lengths [OF u3] have "freshCell s (Some ?np)"
              by (simp add: freshCell_def)
            ultimately have w6: "ownBoard s (writeCell s5 nb ?fp (Some ?np)) nb"
              "readBoard (writeCell s5 nb ?fp (Some ?np)) nb
                 = setCell (readBoard s5 nb) ?fp (deref s5 (Some ?np))"
              using writeCell_own [OF own5 True] by blast+
            have "deref s5 (Some ?np) = Some (promoteIfNeeded ?piece (row ?fp))"
              by (simp add: deref_def s5)
            with w6 rb5 ub5 True pure cl pathok show ?thesis
              by (auto simp: inBounds_def ownBoard_def)
          qed
        qed
      qed
    qed
  qed
qed

lemma in_piecesOf:
  "(a \<in> set (piecesOf s b)) = (\<exists>r\<in>set (boardObjs s ! b). Some a \<in> set (rowObjs s ! r))"
  by (auto simp: piecesOf_def rowsOf_def split: option.splits)

lemma fresh_sharesNoStorage:
  assumes v: "validBoard s b" and u: "unchanged s s'" and f: "freshBoard s s' nb"
  shows "sharesNoStorage s' nb b"
proof -
  from v u have b: "boardObjs s' ! b = boardObjs s ! b" "b < length (boardObjs s)"
    by (simp_all add: validBoard_def unchanged_def prefix_nth)
  from v have old_rows: "r < length (rowObjs s)" if "r \<in> set (boardObjs s ! b)" for r
    using that by (auto simp: validBoard_def validRow_def list_all_iff)
  from f have new_rows: "length (rowObjs s) \<le> r" if "r \<in> set (boardObjs s' ! nb)" for r
    using that by (auto simp: freshBoard_def freshRow_def list_all_iff)
  have old_pieces: "a < length (pieceObjs s)" if "a \<in> set (piecesOf s' b)" for a
  proof -
    from that obtain r where r: "r \<in> set (boardObjs s ! b)" "Some a \<in> set (rowObjs s' ! r)"
      by (auto simp: in_piecesOf b)
    with v have vr: "validRow s r" by (simp add: validBoard_def list_all_iff)
    with u have "rowObjs s' ! r = rowObjs s ! r"
      by (simp add: validRow_def unchanged_def prefix_nth)
    with r vr show ?thesis
      by (auto simp: validRow_def validCell_def list_all_iff)
  qed
  have new_pieces: "length (pieceObjs s) \<le> a" if "a \<in> set (piecesOf s' nb)" for a
  proof -
    from that obtain r where r: "r \<in> set (boardObjs s' ! nb)" "Some a \<in> set (rowObjs s' ! r)"
      by (auto simp: in_piecesOf)
    with f have "freshCell s (Some a)"
      by (auto simp: freshBoard_def freshRow_def list_all_iff)
    then show ?thesis by (simp add: freshCell_def)
  qed
  from f b have "nb \<noteq> b" by (auto simp: freshBoard_def)
  moreover have "set (rowsOf s' nb) \<inter> set (rowsOf s' b) = {}"
    using old_rows new_rows by (fastforce simp: rowsOf_def b)
  moreover have "set (piecesOf s' nb) \<inter> set (piecesOf s' b) = {}"
    using old_pieces new_pieces by fastforce
  ultimately show ?thesis by (simp add: sharesNoStorage_def)
qed

text \<open>
  C6: neither \<open>cloneBoard\<close> nor \<open>updateBoard\<close> writes to its input board. In the store
  after the call, every object that existed before it (piece objects, row arrays, outer
  arrays) is at its address with its contents, so the input board reads the same, square
  by square and field by field; this holds for every move, also where \<open>updateBoard\<close> ends
  in an error. The board that \<open>cloneBoard\<close> returns has the same contents and shares no
  storage with the input board: its outer array, rows and pieces are new objects.
\<close>

theorem input_board_not_mutated:
  assumes "validBoard s b"
  shows "(case cloneBoardS s b of
            (s', nb) \<Rightarrow> unchanged s s' \<and> readBoard s' b = readBoard s b \<and>
                       readBoard s' nb = readBoard s b \<and> sharesNoStorage s' nb b) \<and>
         (case updateBoardS s b m of
            (s', r) \<Rightarrow> unchanged s s' \<and> readBoard s' b = readBoard s b)"
proof -
  obtain s1 nb where c: "cloneBoardS s b = (s1, nb)" by (cases "cloneBoardS s b")
  obtain s2 r where u: "updateBoardS s b m = (s2, r)" by (cases "updateBoardS s b m")
  from cloneBoardS_spec [OF assms c] have 1: "unchanged s s1" "freshBoard s s1 nb"
      "readBoard s1 nb = readBoard s b"
    by simp_all
  from updateBoardS_refines [OF assms u] have 2: "unchanged s s2" by simp
  from 1 2 assms show ?thesis
    by (simp add: c u readBoard_unchanged fresh_sharesNoStorage)
qed

lemma valid_exampleStore: "validBoard exampleStore 0"
  by code_simp

lemma read_exampleStore: "readBoard exampleStore 0 = promotionBoard"
  by code_simp

lemma update_exampleStore:
  "snd (updateBoardS exampleStore 0 \<lparr>from_pos = sq 2 1, path = [sq 0 3], captures = [sq 1 2]\<rparr>)
     = Inr 1"
  by code_simp

lemma updated_exampleStore:
  "cellAt (readBoard
      (fst (updateBoardS exampleStore 0 \<lparr>from_pos = sq 2 1, path = [sq 0 3], captures = [sq 1 2]\<rparr>))
      1) (sq 0 3) = Some \<lparr>color = Red, type = King\<rparr>"
  by code_simp

theorem input_board_not_mutated_witness:
  "validBoard exampleStore 0 \<and>
   readBoard exampleStore 0 = promotionBoard \<and>
   snd (updateBoardS exampleStore 0
          \<lparr>from_pos = sq 2 1, path = [sq 0 3], captures = [sq 1 2]\<rparr>) = Inr 1 \<and>
   cellAt (readBoard (fst (updateBoardS exampleStore 0
          \<lparr>from_pos = sq 2 1, path = [sq 0 3], captures = [sq 1 2]\<rparr>)) 1) (sq 0 3)
     = Some \<lparr>color = Red, type = King\<rparr> \<and>
   readBoard (fst (updateBoardS exampleStore 0
          \<lparr>from_pos = sq 2 1, path = [sq 0 3], captures = [sq 1 2]\<rparr>)) 0 = promotionBoard \<and>
   unchanged exampleStore (fst (cloneBoardS exampleStore 0)) \<and>
   readBoard (fst (cloneBoardS exampleStore 0)) (snd (cloneBoardS exampleStore 0)) = promotionBoard \<and>
   sharesNoStorage (fst (cloneBoardS exampleStore 0)) (snd (cloneBoardS exampleStore 0)) 0"
proof -
  let ?m = "\<lparr>from_pos = sq 2 1, path = [sq 0 3], captures = [sq 1 2]\<rparr>"
  from input_board_not_mutated [OF valid_exampleStore, of ?m]
  have "unchanged exampleStore (fst (cloneBoardS exampleStore 0)) \<and>
        readBoard (fst (cloneBoardS exampleStore 0)) (snd (cloneBoardS exampleStore 0))
          = promotionBoard \<and>
        sharesNoStorage (fst (cloneBoardS exampleStore 0)) (snd (cloneBoardS exampleStore 0)) 0 \<and>
        readBoard (fst (updateBoardS exampleStore 0 ?m)) 0 = promotionBoard"
    by (simp add: split_beta read_exampleStore)
  with valid_exampleStore read_exampleStore update_exampleStore updated_exampleStore
  show ?thesis by simp
qed

end
